theory Spec2Isabelle
  imports Main "HOL-Library.Word" "HOL-Library.Sublist"
begin

section \<open>Strings of the source language\<close>

text \<open>
  A TypeScript string is a sequence of UTF-16 code units, and \<open>length\<close>, \<open>slice\<close>, the
  regular expressions and \<open>trim\<close> all work on code units. A code unit is a 16-bit word.
  \<open>js\<close> turns a literal of the theory into such a string (all literals of the source are
  ASCII).
\<close>

type_synonym code_unit = "16 word"

type_synonym jsstring = "code_unit list"

definition js :: "string \<Rightarrow> jsstring" where
  "js s = map of_char s"

text \<open>
  The character classes of the regular expressions (none of them has the \<open>u\<close>, \<open>s\<close>, \<open>i\<close> or
  \<open>m\<close> flag). \<open>.\<close> matches every code unit but the four line terminators. \<open>\s\<close> and
  \<open>String.prototype.trim\<close> use the same set: the WhiteSpace and LineTerminator code units
  of ECMAScript.
\<close>

definition is_line_terminator :: "code_unit \<Rightarrow> bool" where
  "is_line_terminator c \<longleftrightarrow> c = 0x000A \<or> c = 0x000D \<or> c = 0x2028 \<or> c = 0x2029"

definition is_space :: "code_unit \<Rightarrow> bool" where
  "is_space c \<longleftrightarrow>
     c = 0x0009 \<or> c = 0x000A \<or> c = 0x000B \<or> c = 0x000C \<or> c = 0x000D \<or> c = 0x0020 \<or>
     c = 0x00A0 \<or> c = 0x1680 \<or> (0x2000 \<le> c \<and> c \<le> 0x200A) \<or> c = 0x2028 \<or> c = 0x2029 \<or>
     c = 0x202F \<or> c = 0x205F \<or> c = 0x3000 \<or> c = 0xFEFF"

definition is_digit :: "code_unit \<Rightarrow> bool" where
  "is_digit c \<longleftrightarrow> 0x30 \<le> c \<and> c \<le> 0x39"

definition is_word_char :: "code_unit \<Rightarrow> bool" where
  "is_word_char c \<longleftrightarrow>
     (0x41 \<le> c \<and> c \<le> 0x5A) \<or> (0x61 \<le> c \<and> c \<le> 0x7A) \<or> is_digit c \<or> c = 0x5F"

text \<open>\<open>s.slice(i, j)\<close> for \<open>0 \<le> i \<le> j\<close>; the end is clipped to the length.\<close>

definition js_slice :: "'a list \<Rightarrow> nat \<Rightarrow> nat \<Rightarrow> 'a list" where
  "js_slice xs i j = take (j - i) (drop i xs)"

definition trim :: "jsstring \<Rightarrow> jsstring" where
  "trim s = rev (dropWhile is_space (rev (dropWhile is_space s)))"

section \<open>Data model\<close>

definition RICH_TEXT_MAX :: nat where
  "RICH_TEXT_MAX = 2000"

definition BLOCKS_PER_BATCH :: nat where
  "BLOCKS_PER_BATCH = 100"

text \<open>
  \<open>Annotation\<close> has four optional boolean fields; \<open>None\<close> is an absent (undefined) field.
  A \<open>RichTextSegment\<close> is \<open>{type: "text", text: {content}, annotations?}\<close>: the constant
  \<open>type\<close> is left out and \<open>text.content\<close> is the field \<open>content\<close>.
\<close>

record Annotation =
  bold :: "bool option"
  italic :: "bool option"
  strikethrough :: "bool option"
  code :: "bool option"

record RichTextSegment =
  content :: jsstring
  annotations :: "Annotation option"

text \<open>
  The payload of a block is an object with the keys \<open>rich_text\<close>, \<open>language\<close> and
  \<open>checked\<close>, each present or not. \<open>makeBlock\<close> stores it under the key named by \<open>type\<close>.
\<close>

record Payload =
  rich_text :: "RichTextSegment list option"
  language :: "jsstring option"
  checked :: "bool option"

record Block =
  object :: jsstring
  type :: jsstring
  payload :: Payload

definition truthy :: "bool option \<Rightarrow> bool" where
  "truthy v = (case v of None \<Rightarrow> False | Some b \<Rightarrow> b)"

definition hasAnnotation :: "Annotation option \<Rightarrow> bool" where
  "hasAnnotation a =
     (case a of
        None \<Rightarrow> False
      | Some a' \<Rightarrow> truthy (bold a') \<or> truthy (italic a') \<or> truthy (strikethrough a') \<or> truthy (code a'))"

section \<open>Segment splitter\<close>

text \<open>
  The \<open>for\<close> loop of \<open>splitSegment\<close>, from index \<open>i\<close> on: one part per iteration, with
  a copy of the annotations when \<open>hasAnnotation\<close> holds and none otherwise.
\<close>

function splitSegment_loop :: "RichTextSegment \<Rightarrow> nat \<Rightarrow> RichTextSegment list" where
  "splitSegment_loop seg i =
     (if i < length (content seg)
      then \<lparr>content = js_slice (content seg) i (i + RICH_TEXT_MAX),
            annotations = (if hasAnnotation (annotations seg) then annotations seg else None)\<rparr>
           # splitSegment_loop seg (i + RICH_TEXT_MAX)
      else [])"
  by pat_completeness auto
termination
  by (relation "measure (\<lambda>(seg, i). length (content seg) - i)") (auto simp: RICH_TEXT_MAX_def)

declare splitSegment_loop.simps [simp del]

definition splitSegment :: "RichTextSegment \<Rightarrow> RichTextSegment list" where
  "splitSegment seg =
     (if length (content seg) \<le> RICH_TEXT_MAX then [seg] else splitSegment_loop seg 0)"

section \<open>Batcher\<close>

function batch_loop :: "'a list \<Rightarrow> nat \<Rightarrow> 'a list list" where
  "batch_loop blocks i =
     (if i < length blocks
      then js_slice blocks i (i + BLOCKS_PER_BATCH) # batch_loop blocks (i + BLOCKS_PER_BATCH)
      else [])"
  by pat_completeness auto
termination
  by (relation "measure (\<lambda>(blocks, i). length blocks - i)") (auto simp: BLOCKS_PER_BATCH_def)

declare batch_loop.simps [simp del]

section \<open>Inline tokenizer\<close>

text \<open>
  The pattern of \<open>parseInlineAnnotations\<close> is
  \<^verbatim>\<open>/(\*\*(.+?)\*\*|~~(.+?)~~|`(.+?)`|\*(.+?)\*|_(.+?)_)/\<close>:
  five alternatives, each an opening delimiter, a lazy \<open>(.+?)\<close> and a closing delimiter.

  \<open>lazy_until d s\<close> is \<open>(.+?)\<close> followed by the literal \<open>d\<close>, matched at the start of
  \<open>s\<close>: the group takes one code unit that is not a line terminator, then as few more as
  needed for \<open>d\<close> to follow. It returns the group.
\<close>

fun lazy_until :: "jsstring \<Rightarrow> jsstring \<Rightarrow> jsstring option" where
  "lazy_until d [] = None"
| "lazy_until d (c # cs) =
     (if is_line_terminator c then None
      else if prefix d cs then Some [c]
      else map_option ((#) c) (lazy_until d cs))"

definition delimited :: "jsstring \<Rightarrow> jsstring \<Rightarrow> jsstring \<Rightarrow> jsstring option" where
  "delimited opn cls s =
     (if prefix opn s then lazy_until cls (drop (length opn) s) else None)"

text \<open>
  The match object: \<open>index\<close>, the whole match \<open>m0\<close> and the groups 2 to 6 (group 1 is the
  outer parenthesis and equals \<open>m0\<close>; the source does not read it). A group that did not
  take part in the match is undefined, here \<open>None\<close>.
\<close>

record InlineMatch =
  index :: nat
  m0 :: jsstring
  m2 :: "jsstring option"
  m3 :: "jsstring option"
  m4 :: "jsstring option"
  m5 :: "jsstring option"
  m6 :: "jsstring option"

text \<open>The alternatives at one start position, tried in the order of the pattern.\<close>

definition match_here :: "jsstring \<Rightarrow> InlineMatch option" where
  "match_here s =
     (case delimited (js ''**'') (js ''**'') s of
        Some t \<Rightarrow> Some \<lparr>index = 0, m0 = js ''**'' @ t @ js ''**'',
                         m2 = Some t, m3 = None, m4 = None, m5 = None, m6 = None\<rparr>
      | None \<Rightarrow>
     (case delimited (js ''~~'') (js ''~~'') s of
        Some t \<Rightarrow> Some \<lparr>index = 0, m0 = js ''~~'' @ t @ js ''~~'',
                         m2 = None, m3 = Some t, m4 = None, m5 = None, m6 = None\<rparr>
      | None \<Rightarrow>
     (case delimited (js ''`'') (js ''`'') s of
        Some t \<Rightarrow> Some \<lparr>index = 0, m0 = js ''`'' @ t @ js ''`'',
                         m2 = None, m3 = None, m4 = Some t, m5 = None, m6 = None\<rparr>
      | None \<Rightarrow>
     (case delimited (js ''*'') (js ''*'') s of
        Some t \<Rightarrow> Some \<lparr>index = 0, m0 = js ''*'' @ t @ js ''*'',
                         m2 = None, m3 = None, m4 = None, m5 = Some t, m6 = None\<rparr>
      | None \<Rightarrow>
     (case delimited (js ''_'') (js ''_'') s of
        Some t \<Rightarrow> Some \<lparr>index = 0, m0 = js ''_'' @ t @ js ''_'',
                         m2 = None, m3 = None, m4 = None, m5 = None, m6 = Some t\<rparr>
      | None \<Rightarrow> None)))))"

text \<open>\<open>pattern.exec\<close>: the leftmost start position at which an alternative matches.\<close>

fun exec_from :: "nat \<Rightarrow> jsstring \<Rightarrow> InlineMatch option" where
  "exec_from i [] = map_option (\<lambda>m. m\<lparr>index := i\<rparr>) (match_here [])"
| "exec_from i (c # cs) =
     (case match_here (c # cs) of
        Some m \<Rightarrow> Some (m\<lparr>index := i\<rparr>)
      | None \<Rightarrow> exec_from (Suc i) cs)"

definition pattern_exec :: "jsstring \<Rightarrow> InlineMatch option" where
  "pattern_exec s = exec_from 0 s"

lemma lazy_until_nonempty: "lazy_until d s = Some t \<Longrightarrow> t \<noteq> []"
  by (induction s arbitrary: t) (auto split: if_splits)

lemma match_here_m0_nonempty: "match_here s = Some m \<Longrightarrow> m0 m \<noteq> []"
  by (auto simp: match_here_def js_def split: option.splits)

lemma exec_from_m0_nonempty: "exec_from i s = Some m \<Longrightarrow> m0 m \<noteq> []"
  by (induction s arbitrary: i) (auto split: option.splits dest: match_here_m0_nonempty)

text \<open>
  The chain of \<open>if (match[k] !== undefined)\<close> of \<open>parseInlineAnnotations\<close>: the segment
  pushed for the first defined group among 2 to 6 (none when all are undefined).
\<close>

definition annotated_segment :: "InlineMatch \<Rightarrow> RichTextSegment list" where
  "annotated_segment m =
     (case m2 m of
        Some t \<Rightarrow> [\<lparr>content = t, annotations =
          Some \<lparr>bold = Some True, italic = None, strikethrough = None, code = None\<rparr>\<rparr>]
      | None \<Rightarrow>
     (case m3 m of
        Some t \<Rightarrow> [\<lparr>content = t, annotations =
          Some \<lparr>bold = None, italic = None, strikethrough = Some True, code = None\<rparr>\<rparr>]
      | None \<Rightarrow>
     (case m4 m of
        Some t \<Rightarrow> [\<lparr>content = t, annotations =
          Some \<lparr>bold = None, italic = None, strikethrough = None, code = Some True\<rparr>\<rparr>]
      | None \<Rightarrow>
     (case m5 m of
        Some t \<Rightarrow> [\<lparr>content = t, annotations =
          Some \<lparr>bold = None, italic = Some True, strikethrough = None, code = None\<rparr>\<rparr>]
      | None \<Rightarrow>
     (case m6 m of
        Some t \<Rightarrow> [\<lparr>content = t, annotations =
          Some \<lparr>bold = None, italic = Some True, strikethrough = None, code = None\<rparr>\<rparr>]
      | None \<Rightarrow> [])))))"

text \<open>
  The \<open>while\<close> loop of \<open>parseInlineAnnotations\<close>: the segments pushed from \<open>remaining\<close>
  on, in the order of the pushes.
\<close>

function parseInline_loop :: "jsstring \<Rightarrow> RichTextSegment list" where
  "parseInline_loop remaining =
     (if length remaining > 0 then
        (case pattern_exec remaining of
           None \<Rightarrow>
             (if length remaining > 0 then [\<lparr>content = remaining, annotations = None\<rparr>] else [])
         | Some m \<Rightarrow>
             (if index m > 0
              then [\<lparr>content = js_slice remaining 0 (index m), annotations = None\<rparr>]
              else [])
             @ annotated_segment m
             @ parseInline_loop (drop (index m + length (m0 m)) remaining))
      else [])"
  by pat_completeness auto
termination
proof (relation "measure length")
  show "wf (measure length)" by simp
next
  fix remaining :: jsstring and m
  assume "0 < length remaining" and "pattern_exec remaining = Some m"
  then have "m0 m \<noteq> []"
    by (auto simp: pattern_exec_def dest: exec_from_m0_nonempty)
  with \<open>0 < length remaining\<close>
  show "(drop (index m + length (m0 m)) remaining, remaining) \<in> measure length"
    by simp
qed

declare parseInline_loop.simps [simp del]

definition parseInlineAnnotations :: "jsstring \<Rightarrow> RichTextSegment list" where
  "parseInlineAnnotations text = concat (map splitSegment (parseInline_loop text))"

definition plainRichText :: "jsstring \<Rightarrow> RichTextSegment list" where
  "plainRichText content' =
     (if length content' = 0 then [\<lparr>content = [], annotations = None\<rparr>]
      else splitSegment \<lparr>content = content', annotations = None\<rparr>)"

section \<open>Blocks\<close>

definition makeBlock :: "jsstring \<Rightarrow> Payload \<Rightarrow> Block" where
  "makeBlock type' payload' = \<lparr>object = js ''block'', type = type', payload = payload'\<rparr>"

text \<open>\<open>{ rich_text: richText, ...extra }\<close>: a key of \<open>extra\<close> replaces the same key.\<close>

definition spread :: "Payload \<Rightarrow> Payload option \<Rightarrow> Payload" where
  "spread base extra =
     (case extra of
        None \<Rightarrow> base
      | Some e \<Rightarrow>
          \<lparr>rich_text = (case rich_text e of Some v \<Rightarrow> Some v | None \<Rightarrow> rich_text base),
           language = (case language e of Some v \<Rightarrow> Some v | None \<Rightarrow> language base),
           checked = (case checked e of Some v \<Rightarrow> Some v | None \<Rightarrow> checked base)\<rparr>)"

definition richTextBlock :: "jsstring \<Rightarrow> RichTextSegment list \<Rightarrow> Payload option \<Rightarrow> Block" where
  "richTextBlock type' richText extra =
     makeBlock type' (spread \<lparr>rich_text = Some richText, language = None, checked = None\<rparr> extra)"

section \<open>Line patterns\<close>

text \<open>
  Every line pattern but the fence ends in \<^verbatim>\<open>\s+(.+)$\<close>. The greedy \<open>\s+\<close> first takes
  the whole run of white space and gives code units back one at a time, down to one;
  \<open>(.+)$\<close> then matches when what is left is not empty and holds no line terminator.
  \<open>ws_then_text_bt k s\<close> tries \<open>\s+\<close> with \<open>k\<close> code units, then with fewer; the result is
  the group \<open>(.+)\<close>.
\<close>

fun ws_then_text_bt :: "nat \<Rightarrow> jsstring \<Rightarrow> jsstring option" where
  "ws_then_text_bt 0 s = None"
| "ws_then_text_bt (Suc k) s =
     (if drop (Suc k) s \<noteq> [] \<and> list_all (\<lambda>c. \<not> is_line_terminator c) (drop (Suc k) s)
      then Some (drop (Suc k) s)
      else ws_then_text_bt k s)"

definition ws_then_text :: "jsstring \<Rightarrow> jsstring option" where
  "ws_then_text s = ws_then_text_bt (length (takeWhile is_space s)) s"

text \<open>
  \<^verbatim>\<open>/^(#{1,6})\s+(.+)$/\<close>: the greedy \<open>#{1,6}\<close> takes up to six of the leading \<open>#\<close>, then
  fewer. The result is the pair of groups 1 and 2.
\<close>

fun heading_bt :: "nat \<Rightarrow> jsstring \<Rightarrow> (jsstring \<times> jsstring) option" where
  "heading_bt 0 s = None"
| "heading_bt (Suc k) s =
     (case ws_then_text (drop (Suc k) s) of
        Some t \<Rightarrow> Some (take (Suc k) s, t)
      | None \<Rightarrow> heading_bt k s)"

definition heading_match :: "jsstring \<Rightarrow> (jsstring \<times> jsstring) option" where
  "heading_match s =
     heading_bt (min 6 (length (takeWhile (\<lambda>c. c = of_char (CHR ''#'')) s))) s"

text \<open>
  \<^verbatim>\<open>/^[-*]\s+\[([ xX])\]\s+(.+)$/\<close>: \<open>todo_box\<close> is the part from \<open>\[\<close> on, \<open>todo_bt\<close> the
  greedy \<open>\s+\<close> before it. The result is the pair of groups 1 and 2.
\<close>

definition is_bullet_marker :: "code_unit \<Rightarrow> bool" where
  "is_bullet_marker c \<longleftrightarrow> c = of_char (CHR ''-'') \<or> c = of_char (CHR ''*'')"

definition todo_box :: "jsstring \<Rightarrow> (code_unit \<times> jsstring) option" where
  "todo_box s =
     (case s of
        a # x # b # t \<Rightarrow>
          (if a = of_char (CHR ''['')
              \<and> (x = of_char (CHR '' '') \<or> x = of_char (CHR ''x'') \<or> x = of_char (CHR ''X''))
              \<and> b = of_char (CHR '']'')
           then map_option (Pair x) (ws_then_text t)
           else None)
      | _ \<Rightarrow> None)"

fun todo_bt :: "nat \<Rightarrow> jsstring \<Rightarrow> (code_unit \<times> jsstring) option" where
  "todo_bt 0 s = None"
| "todo_bt (Suc k) s =
     (case todo_box (drop (Suc k) s) of
        Some r \<Rightarrow> Some r
      | None \<Rightarrow> todo_bt k s)"

definition todo_match :: "jsstring \<Rightarrow> (code_unit \<times> jsstring) option" where
  "todo_match s =
     (case s of
        [] \<Rightarrow> None
      | c # r \<Rightarrow> (if is_bullet_marker c then todo_bt (length (takeWhile is_space r)) r else None))"

text \<open>\<^verbatim>\<open>/^[-*]\s+(.+)$/\<close>, with group 1 as the result.\<close>

definition bullet_match :: "jsstring \<Rightarrow> jsstring option" where
  "bullet_match s =
     (case s of
        [] \<Rightarrow> None
      | c # r \<Rightarrow> (if is_bullet_marker c then ws_then_text r else None))"

text \<open>
  \<^verbatim>\<open>/^\d+\.\s+(.+)$/\<close>: the greedy \<open>\d+\<close> takes the whole run of digits, then fewer. Group 1
  is the result.
\<close>

fun numbered_bt :: "nat \<Rightarrow> jsstring \<Rightarrow> jsstring option" where
  "numbered_bt 0 s = None"
| "numbered_bt (Suc k) s =
     (case drop (Suc k) s of
        [] \<Rightarrow> numbered_bt k s
      | d # t \<Rightarrow>
          (if d = of_char (CHR ''.'')
           then (case ws_then_text t of Some r \<Rightarrow> Some r | None \<Rightarrow> numbered_bt k s)
           else numbered_bt k s))"

definition numbered_match :: "jsstring \<Rightarrow> jsstring option" where
  "numbered_match s = numbered_bt (length (takeWhile is_digit s)) s"

text \<open>\<^verbatim>\<open>/^>\s+(.+)$/\<close>, with group 1 as the result.\<close>

definition quote_match :: "jsstring \<Rightarrow> jsstring option" where
  "quote_match s =
     (case s of
        [] \<Rightarrow> None
      | c # r \<Rightarrow> (if c = of_char (CHR ''>'') then ws_then_text r else None))"

text \<open>
  \<^verbatim>\<open>/^```(\w*)$/\<close>: three backticks, then word characters up to the end of the string.
  Group 1 is the result.
\<close>

definition fence_match :: "jsstring \<Rightarrow> jsstring option" where
  "fence_match line =
     (if prefix (js ''```'') line \<and> list_all is_word_char (drop 3 line)
      then Some (drop 3 line)
      else None)"

section \<open>Document converter\<close>

text \<open>The decimal digits of a number, as the template literal writes \<open>level\<close>.\<close>

function number_to_string :: "nat \<Rightarrow> jsstring" where
  "number_to_string n =
     (if n < 10 then [of_nat (48 + n)]
      else number_to_string (n div 10) @ [of_nat (48 + n mod 10)])"
  by pat_completeness auto
termination
  by (relation "measure id") auto

declare number_to_string.simps [simp del]

text \<open>
  \<open>split(/\r?\n/)\<close>: a line ends at a line feed, or at a carriage return that a line feed
  follows; a carriage return alone stays in its line.
\<close>

fun split_lines :: "jsstring \<Rightarrow> jsstring list" where
  "split_lines [] = [[]]"
| "split_lines (c # cs) =
     (if c = 0x0D \<and> take 1 cs = [0x0A] then [] # split_lines (drop 1 cs)
      else if c = 0x0A then [] # split_lines cs
      else (case split_lines cs of
              [] \<Rightarrow> [[c]]
            | l # ls \<Rightarrow> (c # l) # ls))"

text \<open>\<open>codeLines.join("\n")\<close>.\<close>

fun join_lines :: "jsstring list \<Rightarrow> jsstring" where
  "join_lines [] = []"
| "join_lines [l] = l"
| "join_lines (l # l' # ls) = l @ 0x0A # join_lines (l' # ls)"

text \<open>
  The inner \<open>while\<close> loop of a fence, on the lines after the opener: the collected
  \<open>codeLines\<close> and the lines left after the closer (none at the end of the input).
\<close>

fun collect_fence :: "jsstring list \<Rightarrow> jsstring list \<times> jsstring list" where
  "collect_fence [] = ([], [])"
| "collect_fence (l # ls) =
     (if l = js ''```'' then ([], ls)
      else (case collect_fence ls of (codeLines, rest) \<Rightarrow> (l # codeLines, rest)))"

lemma collect_fence_rest_length: "length (snd (collect_fence ls)) \<le> length ls"
  by (induction ls) (auto split: prod.splits)

text \<open>
  The body of the outer loop for a line that opens no fence, after
  \<open>trimmedLine = line.trim()\<close>: the block pushed, or \<open>None\<close> for a blank line.
\<close>

definition line_block :: "jsstring \<Rightarrow> Block option" where
  "line_block trimmedLine =
     (if trimmedLine = [] then None
      else if trimmedLine = js ''---'' then
        Some (makeBlock (js ''divider'') \<lparr>rich_text = None, language = None, checked = None\<rparr>)
      else
     (case heading_match trimmedLine of
        Some (hashes, text) \<Rightarrow>
          (let level = min (length hashes) 3;
               headingType = js ''heading_'' @ number_to_string level
           in Some (richTextBlock headingType (parseInlineAnnotations text) None))
      | None \<Rightarrow>
     (case todo_match trimmedLine of
        Some (mark, text) \<Rightarrow>
          (let checked' = (mark \<noteq> of_char (CHR '' ''))
           in Some (richTextBlock (js ''to_do'') (parseInlineAnnotations text)
                (Some \<lparr>rich_text = None, language = None, checked = Some checked'\<rparr>)))
      | None \<Rightarrow>
     (case bullet_match trimmedLine of
        Some text \<Rightarrow>
          Some (richTextBlock (js ''bulleted_list_item'') (parseInlineAnnotations text) None)
      | None \<Rightarrow>
     (case numbered_match trimmedLine of
        Some text \<Rightarrow>
          Some (richTextBlock (js ''numbered_list_item'') (parseInlineAnnotations text) None)
      | None \<Rightarrow>
     (case quote_match trimmedLine of
        Some text \<Rightarrow> Some (richTextBlock (js ''quote'') (parseInlineAnnotations text) None)
      | None \<Rightarrow>
          Some (richTextBlock (js ''paragraph'') (parseInlineAnnotations trimmedLine) None)))))))"

text \<open>
  The block pushed for a fence whose opener has the language tag \<open>tag\<close> (group 1, empty
  when there is none) and whose inner loop collected \<open>codeLines\<close>.
\<close>

definition code_block :: "jsstring \<Rightarrow> jsstring list \<Rightarrow> Block" where
  "code_block tag codeLines =
     (let language' = (if tag = [] then js ''plain text'' else tag);
          codeContent = join_lines codeLines
      in makeBlock (js ''code'')
           \<lparr>rich_text = Some (plainRichText codeContent), language = Some language',
            checked = None\<rparr>)"

text \<open>
  The outer \<open>while\<close> loop of \<open>markdownToBlocks\<close> on the lines from index \<open>i\<close> on: the
  blocks pushed from there, in order.
\<close>

function markdownToBlocks_loop :: "jsstring list \<Rightarrow> Block list" where
  "markdownToBlocks_loop [] = []"
| "markdownToBlocks_loop (line # rest) =
     (case fence_match line of
        Some tag \<Rightarrow>
          code_block tag (fst (collect_fence rest))
          # markdownToBlocks_loop (snd (collect_fence rest))
      | None \<Rightarrow>
          (case line_block (trim line) of
             None \<Rightarrow> markdownToBlocks_loop rest
           | Some b \<Rightarrow> b # markdownToBlocks_loop rest))"
  by pat_completeness auto
termination
  by (relation "measure length") (auto simp: collect_fence_rest_length less_Suc_eq_le)

definition markdownToBlocks :: "jsstring \<Rightarrow> Block list" where
  "markdownToBlocks content' =
     (let trimmed = trim content' in
      if trimmed = [] then [] else markdownToBlocks_loop (split_lines trimmed))"

definition markdownToBlocksBatched :: "jsstring \<Rightarrow> Block list list" where
  "markdownToBlocksBatched content' =
     (let blocks = markdownToBlocks content' in
      if length blocks = 0 then [] else batch_loop blocks 0)"

section \<open>Properties of the batcher\<close>

lemma length_js_slice: "length (js_slice xs i (i + n)) = min n (length xs - i)"
  by (simp add: js_slice_def)

lemma batch_loop_unfold:
  "i < length xs \<Longrightarrow>
   batch_loop xs i = js_slice xs i (i + BLOCKS_PER_BATCH) # batch_loop xs (i + BLOCKS_PER_BATCH)"
  by (subst batch_loop.simps) simp

lemma batch_loop_done: "\<not> i < length xs \<Longrightarrow> batch_loop xs i = []"
  by (subst batch_loop.simps) simp

lemma batch_loop_concat: "concat (batch_loop xs i) = drop i xs"
proof (induction xs i rule: batch_loop.induct)
  case (1 blocks i)
  show ?case
  proof (cases "i < length blocks")
    case True
    have "take BLOCKS_PER_BATCH (drop i blocks) @ drop (i + BLOCKS_PER_BATCH) blocks = drop i blocks"
      by (metis add.commute append_take_drop_id drop_drop)
    with True 1 show ?thesis
      by (simp add: batch_loop_unfold js_slice_def)
  next
    case False
    then show ?thesis by (simp add: batch_loop_done)
  qed
qed

lemma batch_loop_bounds:
  "b \<in> set (batch_loop xs i) \<Longrightarrow> 0 < length b \<and> length b \<le> BLOCKS_PER_BATCH"
proof (induction xs i rule: batch_loop.induct)
  case (1 blocks i)
  show ?case
  proof (cases "i < length blocks")
    case True
    note unf = batch_loop_unfold[OF True]
    from "1.prems" unf consider "b = js_slice blocks i (i + BLOCKS_PER_BATCH)"
      | "b \<in> set (batch_loop blocks (i + BLOCKS_PER_BATCH))" by auto
    then show ?thesis
    proof cases
      case 1
      with True show ?thesis by (simp add: length_js_slice BLOCKS_PER_BATCH_def)
    next
      case 2
      from "1.IH"[OF True 2] show ?thesis .
    qed
  next
    case False
    with "1.prems" show ?thesis by (simp add: batch_loop_done)
  qed
qed

lemma batch_loop_full_before_last:
  "Suc j < length (batch_loop xs i) \<Longrightarrow> length (batch_loop xs i ! j) = BLOCKS_PER_BATCH"
proof (induction xs i arbitrary: j rule: batch_loop.induct)
  case (1 blocks i)
  show ?case
  proof (cases "i < length blocks")
    case True
    note unf = batch_loop_unfold[OF True]
    show ?thesis
    proof (cases j)
      case 0
      with "1.prems" unf have "batch_loop blocks (i + BLOCKS_PER_BATCH) \<noteq> []" by auto
      then have "i + BLOCKS_PER_BATCH < length blocks"
        using batch_loop_done by blast
      with 0 unf show ?thesis by (simp add: length_js_slice)
    next
      case (Suc k)
      with "1.prems" unf have "Suc k < length (batch_loop blocks (i + BLOCKS_PER_BATCH))" by simp
      from "1.IH"[OF True this] Suc unf show ?thesis by simp
    qed
  next
    case False
    with "1.prems" show ?thesis by (simp add: batch_loop_done)
  qed
qed

lemma batch_loop_exact:
  "(length xs - i) mod BLOCKS_PER_BATCH = 0 \<Longrightarrow> b \<in> set (batch_loop xs i) \<Longrightarrow>
   length b = BLOCKS_PER_BATCH"
proof (induction xs i rule: batch_loop.induct)
  case (1 blocks i)
  show ?case
  proof (cases "i < length blocks")
    case True
    note unf = batch_loop_unfold[OF True]
    from True "1.prems"(1) have ge: "BLOCKS_PER_BATCH \<le> length blocks - i"
      by (metis linorder_not_less mod_less nat_less_le zero_less_diff)
    then have md: "(length blocks - (i + BLOCKS_PER_BATCH)) mod BLOCKS_PER_BATCH = 0"
      using "1.prems"(1) by (metis diff_diff_left le_mod_geq)
    from "1.prems"(2) unf consider "b = js_slice blocks i (i + BLOCKS_PER_BATCH)"
      | "b \<in> set (batch_loop blocks (i + BLOCKS_PER_BATCH))" by auto
    then show ?thesis
    proof cases
      case 1
      with ge show ?thesis by (simp add: length_js_slice)
    next
      case 2
      from "1.IH"[OF True md 2] show ?thesis .
    qed
  next
    case False
    with "1.prems" show ?thesis by (simp add: batch_loop_done)
  qed
qed

lemma ceil_div_step:
  fixes d n :: nat
  assumes "0 < n" "0 < d"
  shows "Suc ((d - n + (n - 1)) div n) = (d + (n - 1)) div n"
proof (cases "n \<le> d")
  case True
  define k where "k = d - n + (n - 1)"
  from True have "d + (n - 1) = k + n" by (simp add: k_def)
  then have "(d + (n - 1)) div n = (k + n) div n" by simp
  also have "\<dots> = Suc (k div n)" using assms(1) by (simp only: div_add_self2)
  finally show ?thesis by (simp add: k_def)
next
  case False
  then have z: "d - n = 0" by simp
  have "(n - 1) div n = 0" using assms(1) by simp
  moreover have "(d + (n - 1)) div n = 1"
  proof (rule div_nat_eqI)
    show "n * 1 \<le> d + (n - 1)" using assms by simp
    show "d + (n - 1) < n * Suc 1" using False assms by simp
  qed
  ultimately show ?thesis using z by simp
qed

lemma batch_loop_length:
  "length (batch_loop xs i) = (length xs - i + (BLOCKS_PER_BATCH - 1)) div BLOCKS_PER_BATCH"
proof (induction xs i rule: batch_loop.induct)
  case (1 blocks i)
  show ?case
  proof (cases "i < length blocks")
    case True
    have pos: "0 < BLOCKS_PER_BATCH" by (simp add: BLOCKS_PER_BATCH_def)
    from True have d: "0 < length blocks - i" by simp
    have "length (batch_loop blocks i) = Suc (length (batch_loop blocks (i + BLOCKS_PER_BATCH)))"
      by (simp add: batch_loop_unfold[OF True])
    also have "\<dots> = Suc ((length blocks - i - BLOCKS_PER_BATCH + (BLOCKS_PER_BATCH - 1)) div BLOCKS_PER_BATCH)"
      using "1.IH"[OF True] by simp
    also have "\<dots> = (length blocks - i + (BLOCKS_PER_BATCH - 1)) div BLOCKS_PER_BATCH"
      by (rule ceil_div_step[OF pos d])
    finally show ?thesis .
  next
    case False
    then show ?thesis by (simp add: batch_loop_done BLOCKS_PER_BATCH_def)
  qed
qed

section \<open>A sample document\<close>

text \<open>
  The document of \<open>n + 1\<close> lines \<open>a\<close>, used to run the converter on inputs of a chosen
  number of blocks.
\<close>

lemma trim_id: "s \<noteq> [] \<Longrightarrow> \<not> is_space (hd s) \<Longrightarrow> \<not> is_space (last s) \<Longrightarrow> trim s = s"
proof -
  assume a: "s \<noteq> []" "\<not> is_space (hd s)" "\<not> is_space (last s)"
  then have 1: "dropWhile is_space s = s" by (cases s) auto
  from a have "rev s \<noteq> []" "\<not> is_space (hd (rev s))" by (simp_all add: hd_rev)
  then have 2: "dropWhile is_space (rev s) = rev s" by (cases "rev s") auto
  show ?thesis by (simp add: trim_def 1 2)
qed

definition sample_lines :: "nat \<Rightarrow> jsstring" where
  "sample_lines n = concat (replicate n (js ''a\<newline>'')) @ js ''a''"

definition sample_block :: Block where
  "sample_block = richTextBlock (js ''paragraph'') [\<lparr>content = js ''a'', annotations = None\<rparr>] None"

lemma split_lines_sample: "split_lines (sample_lines n) = replicate (Suc n) (js ''a'')"
  by (induction n) (simp_all add: sample_lines_def js_def)

lemma trim_sample: "trim (sample_lines n) = sample_lines n"
proof (rule trim_id)
  show "sample_lines n \<noteq> []" by (simp add: sample_lines_def js_def)
  show "\<not> is_space (hd (sample_lines n))"
    by (cases n) (simp_all add: sample_lines_def js_def is_space_def)
  show "\<not> is_space (last (sample_lines n))"
    by (simp add: sample_lines_def js_def is_space_def)
qed

lemma fence_match_sample: "fence_match (js ''a'') = None"
  by (simp add: fence_match_def js_def)

lemma line_block_sample: "line_block (trim (js ''a'')) = Some sample_block"
  by code_simp

lemma loop_sample: "markdownToBlocks_loop (replicate n (js ''a'')) = replicate n sample_block"
  by (induction n) (simp_all add: fence_match_sample line_block_sample)

lemma markdownToBlocks_sample: "markdownToBlocks (sample_lines n) = replicate (Suc n) sample_block"
proof -
  have "sample_lines n \<noteq> []" by (simp add: sample_lines_def js_def)
  then have "markdownToBlocks (sample_lines n) = markdownToBlocks_loop (split_lines (sample_lines n))"
    by (simp add: markdownToBlocks_def trim_sample)
  also have "\<dots> = replicate (Suc n) sample_block"
    by (simp only: split_lines_sample loop_sample)
  finally show ?thesis .
qed

section \<open>Claims about the batcher\<close>

text \<open>
  C1. For every input string, \<open>markdownToBlocksBatched\<close> partitions the block sequence of
  \<open>markdownToBlocks\<close> into consecutive groups that keep the order. An empty block
  sequence gives an empty sequence of batches. Otherwise the batches concatenated in
  order are the block sequence, every batch has between 1 and 100 blocks, every batch
  but the last has exactly 100, a block count that is a multiple of 100 gives batches of
  exactly 100 each, and the number of batches is the block count divided by 100, rounded
  up (so there is no trailing empty batch).
\<close>

theorem markdownToBlocksBatched_partition:
  "(markdownToBlocks s = [] \<longrightarrow> markdownToBlocksBatched s = []) \<and>
   (markdownToBlocks s \<noteq> [] \<longrightarrow>
      concat (markdownToBlocksBatched s) = markdownToBlocks s \<and>
      (\<forall>b \<in> set (markdownToBlocksBatched s). 0 < length b \<and> length b \<le> 100) \<and>
      (\<forall>j. Suc j < length (markdownToBlocksBatched s) \<longrightarrow>
           length (markdownToBlocksBatched s ! j) = 100) \<and>
      (length (markdownToBlocks s) mod 100 = 0 \<longrightarrow>
         (\<forall>b \<in> set (markdownToBlocksBatched s). length b = 100)) \<and>
      length (markdownToBlocksBatched s) = (length (markdownToBlocks s) + 99) div 100)"
proof (cases "markdownToBlocks s = []")
  case True
  then show ?thesis by (simp add: markdownToBlocksBatched_def)
next
  case False
  then have eq: "markdownToBlocksBatched s = batch_loop (markdownToBlocks s) 0"
    by (simp add: markdownToBlocksBatched_def)
  have c: "concat (markdownToBlocksBatched s) = markdownToBlocks s"
    by (simp add: eq batch_loop_concat)
  have b: "\<forall>b \<in> set (markdownToBlocksBatched s). 0 < length b \<and> length b \<le> 100"
    using batch_loop_bounds[of _ "markdownToBlocks s" 0]
    by (simp add: eq BLOCKS_PER_BATCH_def)
  have f: "\<forall>j. Suc j < length (markdownToBlocksBatched s) \<longrightarrow>
           length (markdownToBlocksBatched s ! j) = 100"
    using batch_loop_full_before_last[of _ "markdownToBlocks s" 0]
    by (simp add: eq BLOCKS_PER_BATCH_def)
  have e: "length (markdownToBlocks s) mod 100 = 0 \<longrightarrow>
         (\<forall>b \<in> set (markdownToBlocksBatched s). length b = 100)"
  proof (intro impI ballI)
    fix b
    assume "length (markdownToBlocks s) mod 100 = 0" and "b \<in> set (markdownToBlocksBatched s)"
    then have "(length (markdownToBlocks s) - 0) mod BLOCKS_PER_BATCH = 0"
      and "b \<in> set (batch_loop (markdownToBlocks s) 0)"
      by (simp_all add: eq BLOCKS_PER_BATCH_def)
    from batch_loop_exact[OF this] show "length b = 100"
      by (simp add: BLOCKS_PER_BATCH_def)
  qed
  have n: "length (markdownToBlocksBatched s) = (length (markdownToBlocks s) + 99) div 100"
    by (simp add: eq batch_loop_length BLOCKS_PER_BATCH_def)
  from False c b f e n show ?thesis by blast
qed

theorem markdownToBlocksBatched_partition_witness:
  "markdownToBlocks (sample_lines 199) \<noteq> [] \<and>
   length (markdownToBlocks (sample_lines 199)) mod 100 = 0 \<and>
   Suc 0 < length (markdownToBlocksBatched (sample_lines 199)) \<and>
   markdownToBlocksBatched (sample_lines 199) ! 0 \<in> set (markdownToBlocksBatched (sample_lines 199)) \<and>
   concat (markdownToBlocksBatched (sample_lines 199)) = markdownToBlocks (sample_lines 199) \<and>
   length (markdownToBlocksBatched (sample_lines 199) ! 0) = 100 \<and>
   length (markdownToBlocksBatched (sample_lines 199)) = 2"
proof -
  have ne: "markdownToBlocks (sample_lines 199) \<noteq> []"
    by (simp add: markdownToBlocks_sample)
  have len: "length (markdownToBlocks (sample_lines 199)) = 200"
    by (simp add: markdownToBlocks_sample)
  note t = markdownToBlocksBatched_partition[of "sample_lines 199"]
  from t ne len have n: "length (markdownToBlocksBatched (sample_lines 199)) = 2" by simp
  then have m: "markdownToBlocksBatched (sample_lines 199) ! 0 \<in> set (markdownToBlocksBatched (sample_lines 199))"
    by simp
  from t ne have c: "concat (markdownToBlocksBatched (sample_lines 199)) = markdownToBlocks (sample_lines 199)"
    by blast
  from t ne n have f: "length (markdownToBlocksBatched (sample_lines 199) ! 0) = 100"
    by simp
  from ne len n m c f show ?thesis by simp
qed

section \<open>Properties of the segment splitter\<close>

text \<open>
  The annotation set of a segment as the data model reads it: four booleans, false by
  default, so that an absent \<open>annotations\<close> object and one with no true flag are the same
  set.
\<close>

definition annotation_set :: "RichTextSegment \<Rightarrow> bool \<times> bool \<times> bool \<times> bool" where
  "annotation_set seg =
     (case annotations seg of
        None \<Rightarrow> (False, False, False, False)
      | Some a \<Rightarrow> (truthy (bold a), truthy (italic a), truthy (strikethrough a), truthy (code a)))"

text \<open>The part that the loop of \<open>splitSegment\<close> pushes at index \<open>i\<close>.\<close>

definition part_of :: "RichTextSegment \<Rightarrow> nat \<Rightarrow> RichTextSegment" where
  "part_of seg i =
     \<lparr>content = js_slice (content seg) i (i + RICH_TEXT_MAX),
      annotations = (if hasAnnotation (annotations seg) then annotations seg else None)\<rparr>"

lemma splitSegment_loop_unfold:
  "i < length (content seg) \<Longrightarrow>
   splitSegment_loop seg i = part_of seg i # splitSegment_loop seg (i + RICH_TEXT_MAX)"
  by (subst splitSegment_loop.simps) (simp add: part_of_def)

lemma splitSegment_loop_done: "\<not> i < length (content seg) \<Longrightarrow> splitSegment_loop seg i = []"
  by (subst splitSegment_loop.simps) simp

lemma splitSegment_loop_concat:
  "concat (map content (splitSegment_loop seg i)) = drop i (content seg)"
proof (induction seg i rule: splitSegment_loop.induct)
  case (1 seg i)
  show ?case
  proof (cases "i < length (content seg)")
    case True
    have "take RICH_TEXT_MAX (drop i (content seg)) @ drop (i + RICH_TEXT_MAX) (content seg)
          = drop i (content seg)"
      by (metis add.commute append_take_drop_id drop_drop)
    with True 1 show ?thesis
      by (simp add: splitSegment_loop_unfold part_of_def js_slice_def)
  next
    case False
    then show ?thesis by (simp add: splitSegment_loop_done)
  qed
qed

lemma splitSegment_loop_length:
  "length (splitSegment_loop seg i) =
   (length (content seg) - i + (RICH_TEXT_MAX - 1)) div RICH_TEXT_MAX"
proof (induction seg i rule: splitSegment_loop.induct)
  case (1 seg i)
  show ?case
  proof (cases "i < length (content seg)")
    case True
    have pos: "0 < RICH_TEXT_MAX" by (simp add: RICH_TEXT_MAX_def)
    from True have d: "0 < length (content seg) - i" by simp
    have "length (splitSegment_loop seg i) = Suc (length (splitSegment_loop seg (i + RICH_TEXT_MAX)))"
      by (simp add: splitSegment_loop_unfold[OF True])
    also have "\<dots> = Suc ((length (content seg) - i - RICH_TEXT_MAX + (RICH_TEXT_MAX - 1)) div RICH_TEXT_MAX)"
      using "1.IH"[OF True] by simp
    also have "\<dots> = (length (content seg) - i + (RICH_TEXT_MAX - 1)) div RICH_TEXT_MAX"
      by (rule ceil_div_step[OF pos d])
    finally show ?thesis .
  next
    case False
    then show ?thesis by (simp add: splitSegment_loop_done RICH_TEXT_MAX_def)
  qed
qed

lemma splitSegment_loop_nth:
  "j < length (splitSegment_loop seg i) \<Longrightarrow>
   splitSegment_loop seg i ! j = part_of seg (i + j * RICH_TEXT_MAX)"
proof (induction seg i arbitrary: j rule: splitSegment_loop.induct)
  case (1 seg i)
  show ?case
  proof (cases "i < length (content seg)")
    case True
    note unf = splitSegment_loop_unfold[OF True]
    show ?thesis
    proof (cases j)
      case 0
      with unf show ?thesis by simp
    next
      case (Suc k)
      with "1.prems" unf have "k < length (splitSegment_loop seg (i + RICH_TEXT_MAX))" by simp
      from "1.IH"[OF True this] Suc unf show ?thesis by (simp add: algebra_simps)
    qed
  next
    case False
    with "1.prems" show ?thesis by (simp add: splitSegment_loop_done)
  qed
qed

lemma splitSegment_loop_full_before_last:
  "Suc j < length (splitSegment_loop seg i) \<Longrightarrow>
   length (content (splitSegment_loop seg i ! j)) = RICH_TEXT_MAX"
proof (induction seg i arbitrary: j rule: splitSegment_loop.induct)
  case (1 seg i)
  show ?case
  proof (cases "i < length (content seg)")
    case True
    note unf = splitSegment_loop_unfold[OF True]
    show ?thesis
    proof (cases j)
      case 0
      with "1.prems" unf have "splitSegment_loop seg (i + RICH_TEXT_MAX) \<noteq> []" by auto
      then have "i + RICH_TEXT_MAX < length (content seg)"
        using splitSegment_loop_done by blast
      with 0 unf show ?thesis by (simp add: part_of_def length_js_slice)
    next
      case (Suc k)
      with "1.prems" unf have "Suc k < length (splitSegment_loop seg (i + RICH_TEXT_MAX))" by simp
      from "1.IH"[OF True this] Suc unf show ?thesis by simp
    qed
  next
    case False
    with "1.prems" show ?thesis by (simp add: splitSegment_loop_done)
  qed
qed

lemma splitSegment_loop_part:
  "p \<in> set (splitSegment_loop seg i) \<Longrightarrow>
   0 < length (content p) \<and> length (content p) \<le> RICH_TEXT_MAX \<and>
   annotations p = (if hasAnnotation (annotations seg) then annotations seg else None)"
proof (induction seg i rule: splitSegment_loop.induct)
  case (1 seg i)
  show ?case
  proof (cases "i < length (content seg)")
    case True
    note unf = splitSegment_loop_unfold[OF True]
    from "1.prems" unf consider "p = part_of seg i"
      | "p \<in> set (splitSegment_loop seg (i + RICH_TEXT_MAX))" by auto
    then show ?thesis
    proof cases
      case 1
      with True show ?thesis by (simp add: part_of_def length_js_slice RICH_TEXT_MAX_def)
    next
      case 2
      from "1.IH"[OF True 2] show ?thesis .
    qed
  next
    case False
    with "1.prems" show ?thesis by (simp add: splitSegment_loop_done)
  qed
qed

lemma annotation_set_part:
  "annotations p = (if hasAnnotation (annotations seg) then annotations seg else None) \<Longrightarrow>
   annotation_set p = annotation_set seg"
  by (auto simp: annotation_set_def hasAnnotation_def split: option.splits)

text \<open>Two segments to run the splitter on: one over the limit, one under it.\<close>

definition sample_long :: RichTextSegment where
  "sample_long =
     \<lparr>content = replicate 2001 (of_char (CHR ''b'')),
      annotations = Some \<lparr>bold = Some True, italic = None, strikethrough = None, code = None\<rparr>\<rparr>"

definition sample_short :: RichTextSegment where
  "sample_short = \<lparr>content = js ''ab'', annotations = None\<rparr>"

section \<open>Claims about the segment splitter\<close>

text \<open>
  C2. \<open>splitSegment\<close> returns a segment of at most 2000 code units unchanged, as the only
  element. For a longer segment it returns the number of parts that is the length
  divided by 2000, rounded up; part \<open>j\<close> holds the code units from \<open>2000 j\<close> up to
  \<open>2000 j + 2000\<close>, so every part but the last has exactly 2000 and the last has between
  1 and 2000; the contents concatenated are the original content; and every part has
  the annotation set of the original segment (the same \<open>annotations\<close> object when the
  segment has none or has a true flag).
\<close>

theorem splitSegment_spec:
  "(length (content seg) \<le> 2000 \<longrightarrow> splitSegment seg = [seg]) \<and>
   (2000 < length (content seg) \<longrightarrow>
      length (splitSegment seg) = (length (content seg) + 1999) div 2000 \<and>
      concat (map content (splitSegment seg)) = content seg \<and>
      (\<forall>j. j < length (splitSegment seg) \<longrightarrow>
         content (splitSegment seg ! j) = js_slice (content seg) (j * 2000) (j * 2000 + 2000)) \<and>
      (\<forall>j. Suc j < length (splitSegment seg) \<longrightarrow>
         length (content (splitSegment seg ! j)) = 2000) \<and>
      1 \<le> length (content (last (splitSegment seg))) \<and>
      length (content (last (splitSegment seg))) \<le> 2000 \<and>
      (\<forall>p \<in> set (splitSegment seg).
         annotation_set p = annotation_set seg \<and>
         (annotations seg = None \<or> hasAnnotation (annotations seg) \<longrightarrow>
            annotations p = annotations seg)))"
proof (cases "length (content seg) \<le> 2000")
  case True
  then show ?thesis by (simp add: splitSegment_def RICH_TEXT_MAX_def)
next
  case False
  then have eq: "splitSegment seg = splitSegment_loop seg 0"
    by (simp add: splitSegment_def RICH_TEXT_MAX_def)
  have n: "length (splitSegment seg) = (length (content seg) + 1999) div 2000"
    by (simp add: eq splitSegment_loop_length RICH_TEXT_MAX_def)
  have c: "concat (map content (splitSegment seg)) = content seg"
    by (simp add: eq splitSegment_loop_concat)
  have k: "\<forall>j. j < length (splitSegment seg) \<longrightarrow>
         content (splitSegment seg ! j) = js_slice (content seg) (j * 2000) (j * 2000 + 2000)"
    by (simp add: eq splitSegment_loop_nth part_of_def RICH_TEXT_MAX_def)
  have f: "\<forall>j. Suc j < length (splitSegment seg) \<longrightarrow>
         length (content (splitSegment seg ! j)) = 2000"
    using splitSegment_loop_full_before_last[of _ seg 0]
    by (simp add: eq RICH_TEXT_MAX_def)
  from False have "0 < length (content seg)" by linarith
  from splitSegment_loop_unfold[OF this] have ne: "splitSegment seg \<noteq> []"
    by (simp add: eq)
  then have "last (splitSegment seg) \<in> set (splitSegment_loop seg 0)"
    by (simp add: eq)
  from splitSegment_loop_part[OF this]
  have l: "1 \<le> length (content (last (splitSegment seg)))"
          "length (content (last (splitSegment seg))) \<le> 2000"
    by (simp_all add: RICH_TEXT_MAX_def Suc_le_eq)
  have a: "\<forall>p \<in> set (splitSegment seg).
         annotation_set p = annotation_set seg \<and>
         (annotations seg = None \<or> hasAnnotation (annotations seg) \<longrightarrow>
            annotations p = annotations seg)"
  proof
    fix p
    assume "p \<in> set (splitSegment seg)"
    then have "p \<in> set (splitSegment_loop seg 0)" by (simp add: eq)
    from splitSegment_loop_part[OF this]
    have ap: "annotations p = (if hasAnnotation (annotations seg) then annotations seg else None)"
      by simp
    from annotation_set_part[OF ap] ap
    show "annotation_set p = annotation_set seg \<and>
         (annotations seg = None \<or> hasAnnotation (annotations seg) \<longrightarrow>
            annotations p = annotations seg)"
      by auto
  qed
  from False n c k f l a show ?thesis by blast
qed

theorem splitSegment_spec_witness:
  "length (content sample_short) \<le> 2000 \<and> splitSegment sample_short = [sample_short] \<and>
   2000 < length (content sample_long) \<and>
   hasAnnotation (annotations sample_long) \<and>
   length (splitSegment sample_long) = 2 \<and>
   concat (map content (splitSegment sample_long)) = content sample_long \<and>
   length (content (splitSegment sample_long ! 0)) = 2000 \<and>
   splitSegment sample_long ! 0 \<in> set (splitSegment sample_long) \<and>
   annotations (splitSegment sample_long ! 0) = annotations sample_long \<and>
   annotation_set (splitSegment sample_long ! 0) = annotation_set sample_long \<and>
   1 \<le> length (content (last (splitSegment sample_long)))"
proof -
  have s: "length (content sample_short) \<le> 2000" by (simp add: sample_short_def js_def)
  note ts = splitSegment_spec[of sample_short]
  from ts s have s1: "splitSegment sample_short = [sample_short]" by blast
  have g: "2000 < length (content sample_long)" by (simp add: sample_long_def)
  have h: "hasAnnotation (annotations sample_long)"
    by (simp add: sample_long_def hasAnnotation_def truthy_def)
  note t = splitSegment_spec[of sample_long]
  from t g have n: "length (splitSegment sample_long) = 2"
    by (simp add: sample_long_def)
  then have m: "splitSegment sample_long ! 0 \<in> set (splitSegment sample_long)" by simp
  from t g have c: "concat (map content (splitSegment sample_long)) = content sample_long"
    by blast
  from t g have "\<forall>j. Suc j < length (splitSegment sample_long) \<longrightarrow>
         length (content (splitSegment sample_long ! j)) = 2000" by blast
  with n have f: "length (content (splitSegment sample_long ! 0)) = 2000" by simp
  from t g m h have a: "annotations (splitSegment sample_long ! 0) = annotations sample_long"
    "annotation_set (splitSegment sample_long ! 0) = annotation_set sample_long"
    by blast+
  from t g have l: "1 \<le> length (content (last (splitSegment sample_long)))" by blast
  from s s1 g h n m c f a l show ?thesis by simp
qed

section \<open>Properties of the inline tokenizer\<close>

lemma delimited_nonempty: "delimited opn cls s = Some t \<Longrightarrow> t \<noteq> []"
  by (auto simp: delimited_def split: if_splits dest: lazy_until_nonempty)

lemma match_here_annotated:
  "match_here s = Some m \<Longrightarrow>
   \<exists>seg. annotated_segment m = [seg] \<and> content seg \<noteq> [] \<and> hasAnnotation (annotations seg)"
  by (auto simp: match_here_def annotated_segment_def hasAnnotation_def truthy_def
      split: option.splits dest: delimited_nonempty)

lemma annotated_segment_index [simp]: "annotated_segment (m\<lparr>index := i\<rparr>) = annotated_segment m"
  by (simp add: annotated_segment_def cong: option.case_cong)

lemma exec_from_annotated:
  "exec_from i s = Some m \<Longrightarrow>
   \<exists>seg. annotated_segment m = [seg] \<and> content seg \<noteq> [] \<and> hasAnnotation (annotations seg)"
proof (induction s arbitrary: i)
  case Nil
  then show ?case by (auto dest: match_here_annotated)
next
  case (Cons c cs)
  then show ?case by (auto split: option.splits dest: match_here_annotated)
qed

lemma pattern_exec_annotated:
  "pattern_exec s = Some m \<Longrightarrow>
   \<exists>seg. annotated_segment m = [seg] \<and> content seg \<noteq> [] \<and> hasAnnotation (annotations seg)"
  unfolding pattern_exec_def by (rule exec_from_annotated)

lemma parseInline_loop_Nil: "parseInline_loop [] = []"
  by (subst parseInline_loop.simps) simp

lemma parseInline_loop_nonempty: "s \<noteq> [] \<Longrightarrow> parseInline_loop s \<noteq> []"
  by (subst parseInline_loop.simps) (auto split: option.splits dest: pattern_exec_annotated)

lemma parseInline_loop_contents: "seg \<in> set (parseInline_loop s) \<Longrightarrow> content seg \<noteq> []"
proof (induction s rule: parseInline_loop.induct)
  case (1 remaining)
  show ?case
  proof (cases "remaining = []")
    case True
    with "1.prems" show ?thesis by (simp add: parseInline_loop_Nil)
  next
    case False
    show ?thesis
    proof (cases "pattern_exec remaining")
      case None
      with False "1.prems" show ?thesis
        by (subst (asm) parseInline_loop.simps) simp
    next
      case (Some m)
      from pattern_exec_annotated[OF Some] obtain a where
        a: "annotated_segment m = [a]" "content a \<noteq> []" by blast
      from False Some "1.prems" a(1)
      consider "0 < index m \<and> seg = \<lparr>content = js_slice remaining 0 (index m), annotations = None\<rparr>"
        | "seg = a"
        | "seg \<in> set (parseInline_loop (drop (index m + length (m0 m)) remaining))"
        by (subst (asm) parseInline_loop.simps) (auto split: if_splits)
      then show ?thesis
      proof cases
        case 1
        with False show ?thesis by (simp add: js_slice_def)
      next
        case 2
        with a show ?thesis by simp
      next
        case 3
        from False have "0 < length remaining" by simp
        from "1.IH"[OF this Some 3] show ?thesis .
      qed
    qed
  qed
qed

lemma splitSegment_nonempty: "splitSegment seg \<noteq> []"
proof (cases "length (content seg) \<le> RICH_TEXT_MAX")
  case True
  then show ?thesis by (simp add: splitSegment_def)
next
  case False
  then have "0 < length (content seg)" by linarith
  from splitSegment_loop_unfold[OF this] False show ?thesis by (simp add: splitSegment_def)
qed

lemma splitSegment_parts:
  "p \<in> set (splitSegment seg) \<Longrightarrow>
   length (content p) \<le> RICH_TEXT_MAX \<and> (content seg \<noteq> [] \<longrightarrow> content p \<noteq> [])"
proof (cases "length (content seg) \<le> RICH_TEXT_MAX")
  case True
  assume "p \<in> set (splitSegment seg)"
  with True show ?thesis by (simp add: splitSegment_def)
next
  case False
  assume "p \<in> set (splitSegment seg)"
  with False have "p \<in> set (splitSegment_loop seg 0)" by (simp add: splitSegment_def)
  from splitSegment_loop_part[OF this] show ?thesis by auto
qed

lemma parseInlineAnnotations_Nil: "parseInlineAnnotations [] = []"
  by (simp add: parseInlineAnnotations_def parseInline_loop_Nil)

lemma parseInlineAnnotations_nonempty: "s \<noteq> [] \<Longrightarrow> parseInlineAnnotations s \<noteq> []"
proof -
  assume "s \<noteq> []"
  then obtain seg segs where "parseInline_loop s = seg # segs"
    using parseInline_loop_nonempty by (cases "parseInline_loop s") auto
  then show ?thesis by (simp add: parseInlineAnnotations_def splitSegment_nonempty)
qed

lemma parseInlineAnnotations_parts:
  "p \<in> set (parseInlineAnnotations s) \<Longrightarrow>
   content p \<noteq> [] \<and> length (content p) \<le> RICH_TEXT_MAX"
proof -
  assume "p \<in> set (parseInlineAnnotations s)"
  then obtain seg where seg: "seg \<in> set (parseInline_loop s)" "p \<in> set (splitSegment seg)"
    by (auto simp: parseInlineAnnotations_def)
  from parseInline_loop_contents[OF seg(1)] splitSegment_parts[OF seg(2)]
  show ?thesis by simp
qed

section \<open>Claims about the inline tokenizer\<close>

text \<open>
  C4, as the claim states it, fails on the empty string: the loop of
  \<open>parseInlineAnnotations\<close> is not entered and no segment is pushed, so the result is
  the empty sequence and not a single segment with empty content.
\<close>

theorem parseInlineAnnotations_empty_counterexample:
  "parseInlineAnnotations (js '''') = [] \<and>
   parseInlineAnnotations (js '''') \<noteq> [\<lparr>content = js '''', annotations = None\<rparr>]"
  by (simp add: js_def parseInlineAnnotations_Nil)

text \<open>
  C4, amended. For every input string that is not empty, \<open>parseInlineAnnotations\<close>
  returns at least one rich-text segment; for the empty string it returns the empty
  sequence.
\<close>

theorem parseInlineAnnotations_segments:
  "(text \<noteq> [] \<longrightarrow> parseInlineAnnotations text \<noteq> []) \<and> parseInlineAnnotations [] = []"
  by (simp add: parseInlineAnnotations_nonempty parseInlineAnnotations_Nil)

theorem parseInlineAnnotations_segments_witness:
  "js ''a'' \<noteq> [] \<and> parseInlineAnnotations (js ''a'') \<noteq> []"
  using parseInlineAnnotations_segments[of "js ''a''"] by (simp add: js_def)

section \<open>Properties of the line patterns\<close>

subsection \<open>White space then text\<close>

lemma ws_then_text_bt_Some:
  "ws_then_text_bt k s = Some t \<Longrightarrow> t \<noteq> [] \<and> list_all (\<lambda>c. \<not> is_line_terminator c) t"
  by (induction k) (auto split: if_splits)

lemma ws_then_text_nonempty: "ws_then_text s = Some t \<Longrightarrow> t \<noteq> []"
  by (auto simp: ws_then_text_def dest: ws_then_text_bt_Some)

lemma ws_then_text_no_space: "s = [] \<or> \<not> is_space (hd s) \<Longrightarrow> ws_then_text s = None"
  by (cases s) (auto simp: ws_then_text_def)

lemma ws_then_text_exact:
  assumes "ws \<noteq> []" and "list_all is_space ws" and "r \<noteq> []" and "\<not> is_space (hd r)"
    and "list_all (\<lambda>c. \<not> is_line_terminator c) r"
  shows "ws_then_text (ws @ r) = Some r"
proof -
  from assms(3,4) have "takeWhile is_space r = []" by (cases r) auto
  with assms(2) have tw: "takeWhile is_space (ws @ r) = ws"
    by (simp add: list_all_iff)
  from assms(1) obtain k where k: "length ws = Suc k" by (cases ws) auto
  have "ws_then_text (ws @ r) = ws_then_text_bt (Suc k) (ws @ r)"
    by (simp add: ws_then_text_def tw k)
  also have "\<dots> = Some r" using assms(3,5) k by simp
  finally show ?thesis .
qed

subsection \<open>Headings\<close>

lemma takeWhile_replicate_append:
  "takeWhile (\<lambda>c. c = x) ys = [] \<Longrightarrow> takeWhile (\<lambda>c. c = x) (replicate n x @ ys) = replicate n x"
  by (induction n) simp_all

lemma heading_bt_Some:
  "heading_bt k s = Some (h, t) \<Longrightarrow> t \<noteq> [] \<and> (\<exists>j. 0 < j \<and> j \<le> k \<and> h = take j s)"
proof (induction k)
  case 0
  then show ?case by simp
next
  case (Suc k)
  show ?case
  proof (cases "ws_then_text (drop (Suc k) s)")
    case None
    with Suc.prems have "heading_bt k s = Some (h, t)" by simp
    from Suc.IH[OF this] show ?thesis by auto
  next
    case (Some u)
    with Suc.prems have "h = take (Suc k) s" "t = u" by simp_all
    with ws_then_text_nonempty[OF Some] show ?thesis by auto
  qed
qed

lemma heading_match_Some:
  "heading_match s = Some (h, t) \<Longrightarrow> t \<noteq> [] \<and> 1 \<le> length h \<and> length h \<le> 3 \<or> t \<noteq> [] \<and> 3 < length h \<and> length h \<le> 6"
proof -
  assume a: "heading_match s = Some (h, t)"
  let ?n = "length (takeWhile (\<lambda>c. c = 0x23) s)"
  from a have "heading_bt (min 6 ?n) s = Some (h, t)" by (simp add: heading_match_def)
  from heading_bt_Some[OF this] obtain j where
    j: "t \<noteq> []" "0 < j" "j \<le> min 6 ?n" "h = take j s" by blast
  have "?n \<le> length s" by (rule length_takeWhile_le)
  with j have "length h = j" by simp
  with j show ?thesis by auto
qed

lemma heading_match_exact:
  assumes "1 \<le> n" and "n \<le> 6" and "ws \<noteq> []" and "list_all is_space ws"
    and "r \<noteq> []" and "\<not> is_space (hd r)" and "list_all (\<lambda>c. \<not> is_line_terminator c) r"
  shows "heading_match (replicate n (0x23) @ ws @ r)
         = Some (replicate n (0x23), r)"
proof -
  let ?h = "0x23 :: code_unit"
  have nsp: "\<not> is_space ?h" by (simp add: is_space_def)
  from assms(3,4) have "hd ws \<noteq> ?h" using nsp by (cases ws) auto
  with assms(3) have "takeWhile (\<lambda>c. c = ?h) (ws @ r) = []" by (cases ws) auto
  then have tw: "takeWhile (\<lambda>c. c = ?h) (replicate n ?h @ ws @ r) = replicate n ?h"
    by (rule takeWhile_replicate_append)
  from assms(1) obtain k where k: "n = Suc k" by (cases n) auto
  have "heading_match (replicate n ?h @ ws @ r) = heading_bt n (replicate n ?h @ ws @ r)"
    using assms(2) by (simp add: heading_match_def tw)
  also have "\<dots> = Some (replicate n ?h, r)"
    using ws_then_text_exact[OF assms(3-7)] by (simp add: k)
  finally show ?thesis .
qed

lemma heading_bt_None:
  assumes "rest = [] \<or> \<not> is_space (hd rest)"
  shows "k \<le> n \<Longrightarrow> heading_bt k (replicate n (0x23) @ rest) = None"
proof (induction k)
  case 0
  show ?case by simp
next
  case (Suc k)
  let ?h = "0x23 :: code_unit"
  have nsp: "\<not> is_space ?h" by (simp add: is_space_def)
  from Suc.prems have d: "drop (Suc k) (replicate n ?h @ rest) = replicate (n - Suc k) ?h @ rest"
    by simp
  have "replicate (n - Suc k) ?h @ rest = [] \<or> \<not> is_space (hd (replicate (n - Suc k) ?h @ rest))"
    using assms nsp by (cases "n - Suc k") auto
  then have "ws_then_text (drop (Suc k) (replicate n ?h @ rest)) = None"
    unfolding d by (rule ws_then_text_no_space)
  with Suc show ?case by simp
qed

lemma heading_match_None:
  assumes "rest = [] \<or> hd rest \<noteq> 0x23 \<and> \<not> is_space (hd rest)"
  shows "heading_match (replicate n 0x23 @ rest) = None"
proof -
  from assms have "takeWhile (\<lambda>c. c = 0x23) rest = []" by (cases rest) auto
  then have tw: "takeWhile (\<lambda>c. c = 0x23) (replicate n 0x23 @ rest) = replicate n 0x23"
    by (rule takeWhile_replicate_append)
  from assms have a: "rest = [] \<or> \<not> is_space (hd rest)" by blast
  have "heading_bt (min 6 n) (replicate n 0x23 @ rest) = None"
    by (rule heading_bt_None[OF a]) simp
  then show ?thesis by (simp add: heading_match_def tw)
qed

subsection \<open>To-do items, bullets, numbers and quotes\<close>

lemma todo_box_Some: "todo_box s = Some (x, t) \<Longrightarrow> t \<noteq> []"
  by (auto simp: todo_box_def split: list.splits if_splits dest: ws_then_text_nonempty)

lemma todo_bt_Some: "todo_bt k s = Some (x, t) \<Longrightarrow> t \<noteq> []"
  by (induction k) (auto split: option.splits dest: todo_box_Some)

lemma todo_match_Some: "todo_match s = Some (x, t) \<Longrightarrow> t \<noteq> []"
  by (auto simp: todo_match_def split: list.splits if_splits dest: todo_bt_Some)

lemma bullet_match_Some: "bullet_match s = Some t \<Longrightarrow> t \<noteq> []"
  by (auto simp: bullet_match_def split: list.splits if_splits dest: ws_then_text_nonempty)

lemma numbered_bt_Some: "numbered_bt k s = Some t \<Longrightarrow> t \<noteq> []"
  by (induction k) (auto split: list.splits if_splits option.splits dest: ws_then_text_nonempty)

lemma numbered_match_Some: "numbered_match s = Some t \<Longrightarrow> t \<noteq> []"
  by (auto simp: numbered_match_def dest: numbered_bt_Some)

lemma quote_match_Some: "quote_match s = Some t \<Longrightarrow> t \<noteq> []"
  by (auto simp: quote_match_def split: list.splits if_splits dest: ws_then_text_nonempty)

text \<open>A line that starts with \<open>#\<close> or a backtick matches none of the four.\<close>

lemma other_patterns_None:
  assumes "s \<noteq> []" and "hd s = 0x23 \<or> hd s = 0x60"
  shows "todo_match s = None" and "bullet_match s = None" and "numbered_match s = None"
    and "quote_match s = None"
proof -
  from assms obtain c r where s: "s = c # r" and c: "c = 0x23 \<or> c = 0x60" by (cases s) auto
  from c have nb: "\<not> is_bullet_marker c" by (auto simp: is_bullet_marker_def)
  from c have nd: "\<not> is_digit c" by (auto simp: is_digit_def)
  from c have nq: "c \<noteq> of_char (CHR ''>'')" by auto
  show "todo_match s = None" using nb by (simp add: todo_match_def s)
  show "bullet_match s = None" using nb by (simp add: bullet_match_def s)
  show "numbered_match s = None" using nd by (simp add: numbered_match_def s)
  show "quote_match s = None" using nq by (simp add: quote_match_def s)
qed

subsection \<open>Trimming\<close>

lemma trim_append_spaces:
  assumes "list_all is_space ws" and "t \<noteq> []" and "\<not> is_space (hd t)" and "\<not> is_space (last t)"
  shows "trim (ws @ t) = t"
proof -
  from assms(2,3) have "dropWhile is_space t = t" by (cases t) auto
  with assms(1) have 1: "dropWhile is_space (ws @ t) = t"
    by (simp add: dropWhile_append2 list_all_iff)
  from assms(2,4) have "rev t \<noteq> []" "\<not> is_space (hd (rev t))" by (simp_all add: hd_rev)
  then have 2: "dropWhile is_space (rev t) = rev t" by (cases "rev t") auto
  show ?thesis by (simp add: trim_def 1 2)
qed

lemma not_space_word_char: "is_word_char c \<Longrightarrow> \<not> is_space c"
  unfolding is_word_char_def is_space_def is_digit_def
  by (auto simp: word_le_nat_alt word_less_nat_alt)

lemma fence_match_Some:
  "fence_match line = Some tag \<Longrightarrow>
   line = js ''```'' @ tag \<and> list_all is_word_char tag \<and> trim line = line"
proof -
  assume a: "fence_match line = Some tag"
  then have p: "prefix (js ''```'') line" and w: "list_all is_word_char (drop 3 line)"
    and t: "tag = drop 3 line"
    by (auto simp: fence_match_def split: if_splits)
  from p have l: "line = js ''```'' @ tag"
    using t by (auto simp: prefix_def js_def)
  have nb: "\<not> is_space (0x60 :: code_unit)" by (simp add: is_space_def)
  from l have ne: "line \<noteq> []" and h: "hd line = 0x60" by (simp_all add: js_def)
  have "last line = 0x60 \<or> is_word_char (last line)"
  proof (cases "tag = []")
    case True
    with l show ?thesis by (simp add: js_def)
  next
    case False
    with l have "last line = last tag" by simp
    moreover from w t have "\<forall>c \<in> set tag. is_word_char c" by (simp add: list_all_iff)
    with False have "is_word_char (last tag)" using last_in_set by blast
    ultimately show ?thesis by simp
  qed
  then have "\<not> is_space (last line)" using nb not_space_word_char by auto
  with ne h nb have "trim line = line" by (simp add: trim_id)
  with l w t show ?thesis by simp
qed

subsection \<open>The blocks of the converter\<close>

definition text_kinds :: "jsstring list" where
  "text_kinds =
     [js ''paragraph'', js ''heading_1'', js ''heading_2'', js ''heading_3'',
      js ''bulleted_list_item'', js ''numbered_list_item'', js ''to_do'', js ''quote'']"

definition divider_block :: Block where
  "divider_block = makeBlock (js ''divider'') \<lparr>rich_text = None, language = None, checked = None\<rparr>"

lemma number_to_string_digit: "n < 10 \<Longrightarrow> number_to_string n = [of_nat (48 + n)]"
  by (subst number_to_string.simps) simp

lemma heading_type:
  "js ''heading_'' @ number_to_string (min k 3) =
     (if k = 0 then js ''heading_0'' else if k = 1 then js ''heading_1''
      else if k = 2 then js ''heading_2'' else js ''heading_3'')"
proof -
  consider "k = 0" | "k = 1" | "k = 2" | "3 \<le> k" by linarith
  then show ?thesis
  proof cases
    case 4
    then have "min k 3 = 3" by simp
    with 4 show ?thesis by (simp add: number_to_string_digit js_def)
  qed (simp_all add: number_to_string_digit js_def)
qed

lemma richTextBlock_fields:
  "type (richTextBlock ty rt extra) = ty"
  "object (richTextBlock ty rt extra) = js ''block''"
  "rich_text (payload (richTextBlock ty rt None)) = Some rt"
  "language (payload (richTextBlock ty rt None)) = None"
  "checked (payload (richTextBlock ty rt None)) = None"
  "rich_text (payload (richTextBlock ty rt (Some \<lparr>rich_text = None, language = None, checked = Some c\<rparr>))) = Some rt"
  "language (payload (richTextBlock ty rt (Some \<lparr>rich_text = None, language = None, checked = Some c\<rparr>))) = None"
  "checked (payload (richTextBlock ty rt (Some \<lparr>rich_text = None, language = None, checked = Some c\<rparr>))) = Some c"
  by (simp_all add: richTextBlock_def makeBlock_def spread_def)

lemma line_block_Some:
  assumes "line_block t = Some b"
  shows "b = divider_block \<or>
         (\<exists>tx. tx \<noteq> [] \<and> type b \<in> set text_kinds \<and> object b = js ''block'' \<and>
                rich_text (payload b) = Some (parseInlineAnnotations tx) \<and>
                language (payload b) = None)"
proof -
  from assms have ne: "t \<noteq> []" by (auto simp: line_block_def split: if_splits)
  show ?thesis
  proof (cases "t = js ''---''")
    case True
    with assms show ?thesis by (simp add: line_block_def divider_block_def js_def)
  next
    case nd: False
    show ?thesis
    proof (cases "heading_match t")
      case (Some ht)
      obtain h tx where ht: "ht = (h, tx)" by (cases ht)
      from heading_match_Some[OF Some[unfolded ht]] have tx: "tx \<noteq> []" and h: "1 \<le> length h"
        by auto
      from assms ne nd Some ht
      have b: "b = richTextBlock (js ''heading_'' @ number_to_string (min (length h) 3))
                    (parseInlineAnnotations tx) None"
        by (simp add: line_block_def)
      from h have "h \<noteq> []" by auto
      then have "js ''heading_'' @ number_to_string (min (length h) 3) \<in> set text_kinds"
        by (simp add: heading_type text_kinds_def)
      with b tx show ?thesis by (auto simp: richTextBlock_fields)
    next
      case nh: None
      show ?thesis
      proof (cases "todo_match t")
        case (Some mt)
        obtain m tx where mt: "mt = (m, tx)" by (cases mt)
        from todo_match_Some[OF Some[unfolded mt]] have tx: "tx \<noteq> []" .
        from assms ne nd nh Some mt
        have "b = richTextBlock (js ''to_do'') (parseInlineAnnotations tx)
                (Some \<lparr>rich_text = None, language = None, checked = Some (m \<noteq> of_char (CHR '' ''))\<rparr>)"
          by (simp add: line_block_def)
        with tx show ?thesis by (auto simp: richTextBlock_fields text_kinds_def)
      next
        case nt: None
        show ?thesis
        proof (cases "bullet_match t")
          case (Some tx)
          from bullet_match_Some[OF Some] have tx: "tx \<noteq> []" .
          from assms ne nd nh nt Some
          have "b = richTextBlock (js ''bulleted_list_item'') (parseInlineAnnotations tx) None"
            by (simp add: line_block_def)
          with tx show ?thesis by (auto simp: richTextBlock_fields text_kinds_def)
        next
          case nb: None
          show ?thesis
          proof (cases "numbered_match t")
            case (Some tx)
            from numbered_match_Some[OF Some] have tx: "tx \<noteq> []" .
            from assms ne nd nh nt nb Some
            have "b = richTextBlock (js ''numbered_list_item'') (parseInlineAnnotations tx) None"
              by (simp add: line_block_def)
            with tx show ?thesis by (auto simp: richTextBlock_fields text_kinds_def)
          next
            case nn: None
            show ?thesis
            proof (cases "quote_match t")
              case (Some tx)
              from quote_match_Some[OF Some] have tx: "tx \<noteq> []" .
              from assms ne nd nh nt nb nn Some
              have "b = richTextBlock (js ''quote'') (parseInlineAnnotations tx) None"
                by (simp add: line_block_def)
              with tx show ?thesis by (auto simp: richTextBlock_fields text_kinds_def)
            next
              case nq: None
              from assms ne nd nh nt nb nn nq
              have "b = richTextBlock (js ''paragraph'') (parseInlineAnnotations t) None"
                by (simp add: line_block_def)
              with ne show ?thesis by (auto simp: richTextBlock_fields text_kinds_def)
            qed
          qed
        qed
      qed
    qed
  qed
qed

lemma loop_blocks:
  "b \<in> set (markdownToBlocks_loop ls) \<Longrightarrow>
   (\<exists>t. line_block t = Some b) \<or> (\<exists>tag codeLines. b = code_block tag codeLines)"
proof (induction ls rule: markdownToBlocks_loop.induct)
  case 1
  then show ?case by simp
next
  case (2 line rest)
  show ?case
  proof (cases "fence_match line")
    case (Some tag)
    with "2.prems" consider "b = code_block tag (fst (collect_fence rest))"
      | "b \<in> set (markdownToBlocks_loop (snd (collect_fence rest)))" by auto
    then show ?thesis
    proof cases
      case 1
      then show ?thesis by blast
    next
      case 2
      from "2.IH"(3)[OF Some 2] show ?thesis .
    qed
  next
    case None
    show ?thesis
    proof (cases "line_block (trim line)")
      case nb: None
      with None "2.prems" have "b \<in> set (markdownToBlocks_loop rest)" by simp
      from "2.IH"(1)[OF None nb this] show ?thesis .
    next
      case (Some b')
      with None "2.prems" consider "b = b'" | "b \<in> set (markdownToBlocks_loop rest)" by auto
      then show ?thesis
      proof cases
        case 1
        with Some show ?thesis by blast
      next
        case 2
        from "2.IH"(2)[OF None Some 2] show ?thesis .
      qed
    qed
  qed
qed

lemma markdownToBlocks_blocks:
  "b \<in> set (markdownToBlocks s) \<Longrightarrow>
   (\<exists>t. line_block t = Some b) \<or> (\<exists>tag codeLines. b = code_block tag codeLines)"
  by (auto simp: markdownToBlocks_def Let_def split: if_splits dest: loop_blocks)

lemma plainRichText_Nil: "plainRichText [] = [\<lparr>content = [], annotations = None\<rparr>]"
  by (simp add: plainRichText_def)

lemma plainRichText_nonempty: "plainRichText c \<noteq> []"
  by (simp add: plainRichText_def splitSegment_nonempty)

lemma plainRichText_parts:
  "p \<in> set (plainRichText c) \<Longrightarrow>
   length (content p) \<le> RICH_TEXT_MAX \<and> (c \<noteq> [] \<longrightarrow> content p \<noteq> [])"
proof (cases "c = []")
  case True
  assume "p \<in> set (plainRichText c)"
  with True show ?thesis by (simp add: plainRichText_def)
next
  case False
  assume "p \<in> set (plainRichText c)"
  with False have "p \<in> set (splitSegment \<lparr>content = c, annotations = None\<rparr>)"
    by (simp add: plainRichText_def)
  from splitSegment_parts[OF this] False show ?thesis by simp
qed

lemma code_block_fields:
  "type (code_block tag cl) = js ''code''"
  "object (code_block tag cl) = js ''block''"
  "rich_text (payload (code_block tag cl)) = Some (plainRichText (join_lines cl))"
  "language (payload (code_block tag cl)) = Some (if tag = [] then js ''plain text'' else tag)"
  "checked (payload (code_block tag cl)) = None"
  by (simp_all add: code_block_def makeBlock_def Let_def)

text \<open>A two-line document: a divider, then a heading.\<close>

definition sample_divider_heading :: jsstring where
  "sample_divider_heading = js ''---\<newline>## T''"

lemma markdownToBlocks_sample_divider_heading:
  "markdownToBlocks sample_divider_heading =
     [divider_block,
      richTextBlock (js ''heading_2'') [\<lparr>content = js ''T'', annotations = None\<rparr>] None]"
  by code_simp

section \<open>Claims about the blocks of the converter\<close>

text \<open>
  C3. For every input string, every block that \<open>markdownToBlocks\<close> returns and whose
  kind is not \<open>divider\<close> has a rich-text sequence, that sequence is not empty, and
  every segment in it has a content of at most 2000 code units.
\<close>

theorem markdownToBlocks_rich_text_invariant:
  "\<forall>b \<in> set (markdownToBlocks s).
     type b \<noteq> js ''divider'' \<longrightarrow>
     (\<exists>rt. rich_text (payload b) = Some rt \<and> rt \<noteq> [] \<and>
           (\<forall>seg \<in> set rt. length (content seg) \<le> 2000))"
proof (intro ballI impI)
  fix b
  assume mem: "b \<in> set (markdownToBlocks s)" and nd: "type b \<noteq> js ''divider''"
  from markdownToBlocks_blocks[OF mem]
  consider t where "line_block t = Some b" | tag cl where "b = code_block tag cl" by blast
  then show "\<exists>rt. rich_text (payload b) = Some rt \<and> rt \<noteq> [] \<and>
           (\<forall>seg \<in> set rt. length (content seg) \<le> 2000)"
  proof cases
    case 1
    from line_block_Some[OF 1] nd obtain tx where
      tx: "tx \<noteq> []" "rich_text (payload b) = Some (parseInlineAnnotations tx)"
      by (auto simp: divider_block_def makeBlock_def)
    have "\<forall>seg \<in> set (parseInlineAnnotations tx). length (content seg) \<le> 2000"
      using parseInlineAnnotations_parts by (auto simp: RICH_TEXT_MAX_def)
    with tx parseInlineAnnotations_nonempty[OF tx(1)] show ?thesis by blast
  next
    case 2
    have "\<forall>seg \<in> set (plainRichText (join_lines cl)). length (content seg) \<le> 2000"
      using plainRichText_parts by (auto simp: RICH_TEXT_MAX_def)
    with 2 plainRichText_nonempty show ?thesis by (auto simp: code_block_fields)
  qed
qed

theorem markdownToBlocks_rich_text_invariant_witness:
  "markdownToBlocks sample_divider_heading ! 1 \<in> set (markdownToBlocks sample_divider_heading) \<and>
   type (markdownToBlocks sample_divider_heading ! 1) \<noteq> js ''divider'' \<and>
   rich_text (payload (markdownToBlocks sample_divider_heading ! 1)) \<noteq> None \<and>
   the (rich_text (payload (markdownToBlocks sample_divider_heading ! 1))) \<noteq> [] \<and>
   list_all (\<lambda>seg. length (content seg) \<le> 2000)
     (the (rich_text (payload (markdownToBlocks sample_divider_heading ! 1))))"
proof -
  let ?b = "markdownToBlocks sample_divider_heading ! 1"
  have m: "?b \<in> set (markdownToBlocks sample_divider_heading)"
    by (simp add: markdownToBlocks_sample_divider_heading)
  have t: "type ?b \<noteq> js ''divider''"
    by (simp add: markdownToBlocks_sample_divider_heading richTextBlock_fields js_def)
  from markdownToBlocks_rich_text_invariant[of sample_divider_heading] m t
  obtain rt where rt: "rich_text (payload ?b) = Some rt" "rt \<noteq> []"
    "\<forall>seg \<in> set rt. length (content seg) \<le> 2000" by blast
  then show ?thesis using m t by (simp add: list_all_iff)
qed

section \<open>Properties of the scan\<close>

lemma split_lines_single: "list_all (\<lambda>c. c \<noteq> 0x0A) s \<Longrightarrow> split_lines s = [s]"
proof (induction s)
  case Nil
  show ?case by simp
next
  case (Cons c cs)
  then have c: "c \<noteq> 0x0A" and cs: "list_all (\<lambda>c. c \<noteq> 0x0A) cs" by simp_all
  from cs have "take 1 cs \<noteq> [0x0A]" by (cases cs) auto
  with c Cons.IH[OF cs] show ?case by simp
qed

lemma fence_match_None_if_trim:
  assumes "trim line \<noteq> []" and "hd (trim line) \<noteq> 0x60"
  shows "fence_match line = None"
proof (cases "fence_match line")
  case None
  then show ?thesis .
next
  case (Some tag)
  from fence_match_Some[OF Some] have "line = js ''```'' @ tag" and "trim line = line"
    by blast+
  then have "trim line = js ''```'' @ tag" by (simp only:)
  then have "hd (trim line) = 0x60" by (simp add: js_def)
  with assms show ?thesis by simp
qed

lemma loop_line:
  "fence_match line = None \<Longrightarrow> line_block (trim line) = Some b \<Longrightarrow>
   markdownToBlocks_loop (line # ls) = b # markdownToBlocks_loop ls"
  by simp

lemma loop_fence:
  "fence_match line = Some tag \<Longrightarrow>
   markdownToBlocks_loop (line # ls) =
     code_block tag (fst (collect_fence ls)) # markdownToBlocks_loop (snd (collect_fence ls))"
  by simp

lemma line_block_heading:
  assumes "1 \<le> n" and "n \<le> 6" and "ws \<noteq> []" and "list_all is_space ws"
    and "r \<noteq> []" and "\<not> is_space (hd r)" and "list_all (\<lambda>c. \<not> is_line_terminator c) r"
  shows "line_block (replicate n 0x23 @ ws @ r) =
         Some (richTextBlock
                 (if n = 1 then js ''heading_1'' else if n = 2 then js ''heading_2''
                  else js ''heading_3'')
                 (parseInlineAnnotations r) None)"
proof -
  let ?t = "replicate n 0x23 @ ws @ r :: jsstring"
  from assms(1) have ne: "?t \<noteq> []" by auto
  from assms(1) have "hd ?t = 0x23" by (cases n) auto
  then have nd: "?t \<noteq> js ''---''" by (auto simp: js_def)
  note hm = heading_match_exact[OF assms]
  from assms(1) have n0: "n \<noteq> 0" by simp
  have "line_block ?t =
        Some (richTextBlock (js ''heading_'' @ number_to_string (min n 3))
                (parseInlineAnnotations r) None)"
    using ne nd by (simp add: line_block_def hm)
  with n0 show ?thesis by (simp add: heading_type)
qed

lemma line_block_hash_paragraph:
  assumes "1 \<le> n" and "rest = [] \<or> hd rest \<noteq> 0x23 \<and> \<not> is_space (hd rest)"
  shows "line_block (replicate n 0x23 @ rest) =
         Some (richTextBlock (js ''paragraph'')
                 (parseInlineAnnotations (replicate n 0x23 @ rest)) None)"
proof -
  let ?t = "replicate n 0x23 @ rest :: jsstring"
  from assms(1) have ne: "?t \<noteq> []" by auto
  from assms(1) have h: "hd ?t = 0x23" by (cases n) auto
  then have nd: "?t \<noteq> js ''---''" by (auto simp: js_def)
  note hm = heading_match_None[OF assms(2), of n]
  from h have h': "hd ?t = 0x23 \<or> hd ?t = 0x60" by simp
  note others = other_patterns_None[OF ne h']
  show ?thesis using ne nd by (simp add: line_block_def hm others)
qed

section \<open>Claims about headings\<close>

text \<open>
  C6, as the claim states it, fails on two lines. In \<open># a\<close>, a carriage return, \<open>b\<close>
  the \<open>#\<close> is followed by a space and nonempty text, but \<open>(.+)$\<close> does not match across
  the carriage return (\<open>.\<close> matches no line terminator, and \<open>split\<close> leaves a carriage
  return that no line feed follows inside its line), so the line is a paragraph. In
  \<open>#\<close>, a tab, \<open>x\<close> the \<open>#\<close> is not followed by a space, but \<open>\s+\<close> matches the tab, so the
  line is a heading.
\<close>

theorem heading_lines_counterexample:
  "markdownToBlocks (js ''# a'' @ [0x0D] @ js ''b'') =
     [richTextBlock (js ''paragraph'')
        [\<lparr>content = js ''# a'' @ [0x0D] @ js ''b'', annotations = None\<rparr>] None] \<and>
   markdownToBlocks (js ''#'' @ [0x09] @ js ''x'') =
     [richTextBlock (js ''heading_1'') [\<lparr>content = js ''x'', annotations = None\<rparr>] None]"
  by code_simp

text \<open>
  C6, amended. For every line whose trimmed form is \<open>n\<close> leading \<open>#\<close> (\<open>1 \<le> n \<le> 6\<close>), then
  at least one white-space code unit, then nonempty text that holds no line terminator,
  the converter produces a heading block of level \<open>min n 3\<close>, so \<open>n = 4, 5, 6\<close> all
  give \<open>heading_3\<close>; its rich text is the tokenized text. This holds for the line at any
  position of the scan, and for the document that is such a line alone (with spaces
  after the \<open>#\<close>). A line whose leading \<open>#\<close> are followed by no white-space code unit
  is not a heading and becomes a paragraph block of the whole trimmed line.
\<close>

theorem heading_lines:
  "(1 \<le> n \<and> n \<le> 6 \<and> ws \<noteq> [] \<and> list_all is_space ws \<and> r \<noteq> [] \<and> \<not> is_space (hd r) \<and>
    list_all (\<lambda>c. \<not> is_line_terminator c) r \<and>
    trim line = replicate n (of_char (CHR ''#'')) @ ws @ r \<longrightarrow>
      markdownToBlocks_loop (line # ls) =
        richTextBlock
          (if n = 1 then js ''heading_1'' else if n = 2 then js ''heading_2'' else js ''heading_3'')
          (parseInlineAnnotations r) None
        # markdownToBlocks_loop ls) \<and>
   (1 \<le> n \<and> n \<le> 6 \<and> 1 \<le> k \<and> r \<noteq> [] \<and> \<not> is_space (hd r) \<and> \<not> is_space (last r) \<and>
    list_all (\<lambda>c. \<not> is_line_terminator c) r \<longrightarrow>
      markdownToBlocks (replicate n (of_char (CHR ''#'')) @ replicate k (of_char (CHR '' '')) @ r) =
        [richTextBlock
           (if n = 1 then js ''heading_1'' else if n = 2 then js ''heading_2'' else js ''heading_3'')
           (parseInlineAnnotations r) None]) \<and>
   (1 \<le> n \<and> (rest = [] \<or> hd rest \<noteq> of_char (CHR ''#'') \<and> \<not> is_space (hd rest)) \<and>
    trim line = replicate n (of_char (CHR ''#'')) @ rest \<longrightarrow>
      markdownToBlocks_loop (line # ls) =
        richTextBlock (js ''paragraph'') (parseInlineAnnotations (trim line)) None
        # markdownToBlocks_loop ls)"
proof (intro conjI impI)
  assume a: "1 \<le> n \<and> n \<le> 6 \<and> ws \<noteq> [] \<and> list_all is_space ws \<and> r \<noteq> [] \<and> \<not> is_space (hd r) \<and>
    list_all (\<lambda>c. \<not> is_line_terminator c) r \<and>
    trim line = replicate n (of_char (CHR ''#'')) @ ws @ r"
  then have t: "trim line = replicate n 0x23 @ ws @ r" by simp
  from a have "trim line \<noteq> []" "hd (trim line) \<noteq> 0x60" unfolding t by (cases n; simp)+
  then have f: "fence_match line = None" by (rule fence_match_None_if_trim)
  from a have "line_block (trim line) =
         Some (richTextBlock
                 (if n = 1 then js ''heading_1'' else if n = 2 then js ''heading_2''
                  else js ''heading_3'')
                 (parseInlineAnnotations r) None)"
    unfolding t by (intro line_block_heading) simp_all
  from loop_line[OF f this]
  show "markdownToBlocks_loop (line # ls) =
        richTextBlock
          (if n = 1 then js ''heading_1'' else if n = 2 then js ''heading_2'' else js ''heading_3'')
          (parseInlineAnnotations r) None
        # markdownToBlocks_loop ls" .
next
  assume a: "1 \<le> n \<and> n \<le> 6 \<and> 1 \<le> k \<and> r \<noteq> [] \<and> \<not> is_space (hd r) \<and> \<not> is_space (last r) \<and>
    list_all (\<lambda>c. \<not> is_line_terminator c) r"
  let ?s = "replicate n 0x23 @ replicate k 0x20 @ r :: jsstring"
  have nsp: "\<not> is_space (0x23 :: code_unit)" by (simp add: is_space_def)
  have sp: "is_space (0x20 :: code_unit)" by (simp add: is_space_def)
  from a have ne: "?s \<noteq> []" by simp
  from a have hd: "hd ?s = 0x23" by (cases n) auto
  from a have last: "last ?s = last r" by simp
  from ne hd last nsp a have tr: "trim ?s = ?s" by (simp add: trim_id)
  from a have "list_all (\<lambda>c. c \<noteq> 0x0A) r"
    by (auto simp: list_all_iff is_line_terminator_def)
  then have "list_all (\<lambda>c. c \<noteq> 0x0A) ?s" by (auto simp: list_all_iff)
  then have sl: "split_lines ?s = [?s]" by (rule split_lines_single)
  have "trim ?s \<noteq> []" "hd (trim ?s) \<noteq> 0x60" using ne hd by (simp_all add: tr)
  then have f: "fence_match ?s = None" by (rule fence_match_None_if_trim)
  from a sp have "line_block (trim ?s) =
         Some (richTextBlock
                 (if n = 1 then js ''heading_1'' else if n = 2 then js ''heading_2''
                  else js ''heading_3'')
                 (parseInlineAnnotations r) None)"
    unfolding tr by (intro line_block_heading) (simp_all add: list_all_iff)
  from loop_line[OF f this, of "[]"] ne
  have "markdownToBlocks ?s =
        [richTextBlock
           (if n = 1 then js ''heading_1'' else if n = 2 then js ''heading_2'' else js ''heading_3'')
           (parseInlineAnnotations r) None]"
    by (simp add: markdownToBlocks_def tr sl del: markdownToBlocks_loop.simps(2))
  then show "markdownToBlocks (replicate n (of_char (CHR ''#'')) @ replicate k (of_char (CHR '' '')) @ r) =
        [richTextBlock
           (if n = 1 then js ''heading_1'' else if n = 2 then js ''heading_2'' else js ''heading_3'')
           (parseInlineAnnotations r) None]" by simp
next
  assume a: "1 \<le> n \<and> (rest = [] \<or> hd rest \<noteq> of_char (CHR ''#'') \<and> \<not> is_space (hd rest)) \<and>
    trim line = replicate n (of_char (CHR ''#'')) @ rest"
  then have t: "trim line = replicate n 0x23 @ rest" by simp
  from a have "trim line \<noteq> []" "hd (trim line) \<noteq> 0x60" unfolding t by (cases n; simp)+
  then have f: "fence_match line = None" by (rule fence_match_None_if_trim)
  from a have "line_block (trim line) =
         Some (richTextBlock (js ''paragraph'') (parseInlineAnnotations (trim line)) None)"
    unfolding t by (intro line_block_hash_paragraph) simp_all
  from loop_line[OF f this]
  show "markdownToBlocks_loop (line # ls) =
        richTextBlock (js ''paragraph'') (parseInlineAnnotations (trim line)) None
        # markdownToBlocks_loop ls" .
qed

theorem heading_lines_witness:
  "trim (js ''#### Deep'') = replicate 4 (of_char (CHR ''#'')) @ js '' '' @ js ''Deep'' \<and>
   markdownToBlocks_loop [js ''#### Deep''] =
     [richTextBlock (js ''heading_3'') (parseInlineAnnotations (js ''Deep'')) None] \<and>
   markdownToBlocks (replicate 4 (of_char (CHR ''#'')) @ replicate 1 (of_char (CHR '' '')) @ js ''Deep'') =
     [richTextBlock (js ''heading_3'') (parseInlineAnnotations (js ''Deep'')) None] \<and>
   trim (js ''#NoSpace'') = replicate 1 (of_char (CHR ''#'')) @ js ''NoSpace'' \<and>
   markdownToBlocks_loop [js ''#NoSpace''] =
     [richTextBlock (js ''paragraph'') (parseInlineAnnotations (trim (js ''#NoSpace''))) None]"
proof -
  have h1: "(1::nat) \<le> 4 \<and> (4::nat) \<le> 6 \<and> js '' '' \<noteq> [] \<and> list_all is_space (js '' '') \<and>
    js ''Deep'' \<noteq> [] \<and> \<not> is_space (hd (js ''Deep'')) \<and>
    list_all (\<lambda>c. \<not> is_line_terminator c) (js ''Deep'') \<and>
    trim (js ''#### Deep'') = replicate 4 (of_char (CHR ''#'')) @ js '' '' @ js ''Deep''"
    by code_simp
  have h2: "(1::nat) \<le> 4 \<and> (4::nat) \<le> 6 \<and> (1::nat) \<le> 1 \<and> js ''Deep'' \<noteq> [] \<and>
    \<not> is_space (hd (js ''Deep'')) \<and> \<not> is_space (last (js ''Deep'')) \<and>
    list_all (\<lambda>c. \<not> is_line_terminator c) (js ''Deep'')"
    by code_simp
  have h3: "(1::nat) \<le> 1 \<and>
    (js ''NoSpace'' = [] \<or>
     hd (js ''NoSpace'') \<noteq> of_char (CHR ''#'') \<and> \<not> is_space (hd (js ''NoSpace''))) \<and>
    trim (js ''#NoSpace'') = replicate 1 (of_char (CHR ''#'')) @ js ''NoSpace''"
    by code_simp
  note a = heading_lines[where n = 4 and ws = "js '' ''" and r = "js ''Deep''" and k = 1
      and line = "js ''#### Deep''" and ls = "[]"]
  note b = heading_lines[where n = 1 and rest = "js ''NoSpace''" and line = "js ''#NoSpace''"
      and ls = "[]"]
  from a[THEN conjunct1, THEN mp, OF h1]
  have c1: "markdownToBlocks_loop [js ''#### Deep''] =
     [richTextBlock (js ''heading_3'') (parseInlineAnnotations (js ''Deep'')) None]"
    by (simp del: markdownToBlocks_loop.simps(2))
  from a[THEN conjunct2, THEN conjunct1, THEN mp, OF h2]
  have c2: "markdownToBlocks (replicate 4 (of_char (CHR ''#'')) @ replicate 1 (of_char (CHR '' '')) @ js ''Deep'') =
     [richTextBlock (js ''heading_3'') (parseInlineAnnotations (js ''Deep'')) None]"
    by simp
  from b[THEN conjunct2, THEN conjunct2, THEN mp, OF h3]
  have c3: "markdownToBlocks_loop [js ''#NoSpace''] =
     [richTextBlock (js ''paragraph'') (parseInlineAnnotations (trim (js ''#NoSpace''))) None]"
    by (simp del: markdownToBlocks_loop.simps(2))
  from h1 c1 c2 h3 c3 show ?thesis by (intro conjI) blast+
qed

text \<open>The ten kinds of block, and a document of white space only.\<close>

definition block_kinds :: "jsstring list" where
  "block_kinds = text_kinds @ [js ''divider'', js ''code'']"

definition sample_blank :: jsstring where
  "sample_blank = js ''   \<newline>\<newline>  ''"

lemma loop_length: "length (markdownToBlocks_loop ls) \<le> length ls"
proof (induction ls rule: markdownToBlocks_loop.induct)
  case 1
  show ?case by simp
next
  case (2 line rest)
  show ?case
  proof (cases "fence_match line")
    case (Some tag)
    from "2.IH"(3)[OF Some] collect_fence_rest_length[of rest] Some
    show ?thesis by simp
  next
    case None
    show ?thesis
    proof (cases "line_block (trim line)")
      case nb: None
      from "2.IH"(1)[OF None nb] None nb show ?thesis by simp
    next
      case (Some b)
      from "2.IH"(2)[OF None Some] None Some show ?thesis by simp
    qed
  qed
qed

lemma block_well_formed:
  assumes "b \<in> set (markdownToBlocks s)"
  shows "object b = js ''block'' \<and> type b \<in> set block_kinds"
proof -
  from markdownToBlocks_blocks[OF assms]
  consider t where "line_block t = Some b" | tag cl where "b = code_block tag cl" by blast
  then show ?thesis
  proof cases
    case 1
    from line_block_Some[OF 1] show ?thesis
      by (auto simp: block_kinds_def divider_block_def makeBlock_def)
  next
    case 2
    then show ?thesis by (simp add: code_block_fields block_kinds_def)
  qed
qed

section \<open>Properties of the values of the converter\<close>

text \<open>
  Properties of the values that \<open>markdownToBlocks\<close> returns. Every function above is a
  total function whose recursion is proved to terminate where it is defined. For every
  input string the result is a sequence of blocks, at most one per line, each with
  \<open>object = "block"\<close> and one of the ten kinds; an input that is empty after trimming
  gives the empty sequence; and a line that opens no fence, is not blank, is not the
  horizontal rule and matches none of the five line patterns becomes a paragraph block
  of its trimmed text. Whether the call returns at all is the subject of the section on
  the spread call below.
\<close>

theorem markdownToBlocks_total:
  "length (markdownToBlocks s) \<le> length (split_lines (trim s)) \<and>
   (\<forall>b \<in> set (markdownToBlocks s). object b = js ''block'' \<and> type b \<in> set block_kinds) \<and>
   (trim s = [] \<longrightarrow> markdownToBlocks s = []) \<and>
   (fence_match line = None \<and> trim line \<noteq> [] \<and> trim line \<noteq> js ''---'' \<and>
    heading_match (trim line) = None \<and> todo_match (trim line) = None \<and>
    bullet_match (trim line) = None \<and> numbered_match (trim line) = None \<and>
    quote_match (trim line) = None \<longrightarrow>
      markdownToBlocks_loop (line # ls) =
        richTextBlock (js ''paragraph'') (parseInlineAnnotations (trim line)) None
        # markdownToBlocks_loop ls)"
proof -
  have 1: "length (markdownToBlocks s) \<le> length (split_lines (trim s))"
    by (simp add: markdownToBlocks_def Let_def loop_length)
  have 2: "\<forall>b \<in> set (markdownToBlocks s). object b = js ''block'' \<and> type b \<in> set block_kinds"
    using block_well_formed by blast
  have 3: "trim s = [] \<longrightarrow> markdownToBlocks s = []"
    by (simp add: markdownToBlocks_def)
  have 4: "fence_match line = None \<and> trim line \<noteq> [] \<and> trim line \<noteq> js ''---'' \<and>
    heading_match (trim line) = None \<and> todo_match (trim line) = None \<and>
    bullet_match (trim line) = None \<and> numbered_match (trim line) = None \<and>
    quote_match (trim line) = None \<longrightarrow>
      markdownToBlocks_loop (line # ls) =
        richTextBlock (js ''paragraph'') (parseInlineAnnotations (trim line)) None
        # markdownToBlocks_loop ls"
  proof
    assume a: "fence_match line = None \<and> trim line \<noteq> [] \<and> trim line \<noteq> js ''---'' \<and>
      heading_match (trim line) = None \<and> todo_match (trim line) = None \<and>
      bullet_match (trim line) = None \<and> numbered_match (trim line) = None \<and>
      quote_match (trim line) = None"
    then have "line_block (trim line) =
      Some (richTextBlock (js ''paragraph'') (parseInlineAnnotations (trim line)) None)"
      by (simp add: line_block_def)
    with a show "markdownToBlocks_loop (line # ls) =
          richTextBlock (js ''paragraph'') (parseInlineAnnotations (trim line)) None
          # markdownToBlocks_loop ls"
      by (simp add: loop_line)
  qed
  from 1 2 3 4 show ?thesis by (intro conjI)
qed

theorem markdownToBlocks_total_witness:
  "markdownToBlocks sample_divider_heading ! 1 \<in> set (markdownToBlocks sample_divider_heading) \<and>
   object (markdownToBlocks sample_divider_heading ! 1) = js ''block'' \<and>
   type (markdownToBlocks sample_divider_heading ! 1) \<in> set block_kinds \<and>
   trim sample_blank = [] \<and> markdownToBlocks sample_blank = [] \<and>
   fence_match (js '' ----'') = None \<and> trim (js '' ----'') = js ''----'' \<and>
   markdownToBlocks_loop [js '' ----''] =
     [richTextBlock (js ''paragraph'') (parseInlineAnnotations (trim (js '' ----''))) None]"
proof -
  let ?b = "markdownToBlocks sample_divider_heading ! 1"
  have m: "?b \<in> set (markdownToBlocks sample_divider_heading)"
    by (simp add: markdownToBlocks_sample_divider_heading)
  note a = markdownToBlocks_total[of sample_divider_heading]
  from a m have w: "object ?b = js ''block''" "type ?b \<in> set block_kinds" by blast+
  have e: "trim sample_blank = []" by code_simp
  note b = markdownToBlocks_total[of sample_blank]
  from b e have z: "markdownToBlocks sample_blank = []" by blast
  have h: "fence_match (js '' ----'') = None \<and> trim (js '' ----'') \<noteq> [] \<and>
    trim (js '' ----'') \<noteq> js ''---'' \<and>
    heading_match (trim (js '' ----'')) = None \<and> todo_match (trim (js '' ----'')) = None \<and>
    bullet_match (trim (js '' ----'')) = None \<and> numbered_match (trim (js '' ----'')) = None \<and>
    quote_match (trim (js '' ----'')) = None"
    by code_simp
  have t: "trim (js '' ----'') = js ''----''" by code_simp
  note c = markdownToBlocks_total[where line = "js '' ----''" and ls = "[]"]
  from c[THEN conjunct2, THEN conjunct2, THEN conjunct2, THEN mp, OF h]
  have p: "markdownToBlocks_loop [js '' ----''] =
     [richTextBlock (js ''paragraph'') (parseInlineAnnotations (trim (js '' ----''))) None]"
    by (simp del: markdownToBlocks_loop.simps(2))
  from m w e z h t p show ?thesis by (intro conjI) blast+
qed

section \<open>Properties of the bold alternative\<close>

lemma lazy_until_exact:
  assumes "t \<noteq> []" and "list_all (\<lambda>c. c \<noteq> 0x2A \<and> \<not> is_line_terminator c) t"
  shows "lazy_until (js ''**'') (t @ js ''**'' @ r) = Some t"
  using assms
proof (induction t)
  case Nil
  then show ?case by simp
next
  case (Cons c cs)
  show ?case
  proof (cases cs)
    case Nil
    with Cons.prems show ?thesis by (simp add: js_def)
  next
    case (Cons d ds)
    with Cons.prems have "d \<noteq> 0x2A" by simp
    then have "\<not> prefix (js ''**'') (cs @ js ''**'' @ r)" using Cons by (simp add: js_def)
    moreover from Cons Cons.prems Cons.IH have "lazy_until (js ''**'') (cs @ js ''**'' @ r) = Some cs"
      by simp
    ultimately show ?thesis using Cons.prems by simp
  qed
qed

lemma match_here_bold:
  "delimited (js ''**'') (js ''**'') s = Some t \<Longrightarrow>
   match_here s = Some \<lparr>index = 0, m0 = js ''**'' @ t @ js ''**'', m2 = Some t, m3 = None,
                         m4 = None, m5 = None, m6 = None\<rparr>"
  by (simp add: match_here_def)

lemma match_here_index: "match_here s = Some m \<Longrightarrow> m\<lparr>index := 0\<rparr> = m"
  by (auto simp: match_here_def split: option.splits)

lemma exec_from_position:
  "exec_from i s = Some m \<Longrightarrow>
   \<exists>k. k \<le> length s \<and> index m = i + k \<and> match_here (drop k s) = Some (m\<lparr>index := 0\<rparr>)"
proof (induction s arbitrary: i)
  case Nil
  then obtain m' where m': "match_here [] = Some m'" "m = m'\<lparr>index := i\<rparr>" by auto
  then show ?case by (intro exI[of _ 0]) (simp add: match_here_index)
next
  case (Cons c cs)
  show ?case
  proof (cases "match_here (c # cs)")
    case (Some m')
    with Cons.prems have "m = m'\<lparr>index := i\<rparr>" by simp
    with Some show ?thesis by (intro exI[of _ 0]) (simp add: match_here_index)
  next
    case None
    with Cons.prems have "exec_from (Suc i) cs = Some m" by simp
    from Cons.IH[OF this] obtain k where
      "k \<le> length cs" "index m = Suc i + k" "match_here (drop k cs) = Some (m\<lparr>index := 0\<rparr>)"
      by blast
    then show ?thesis by (intro exI[of _ "Suc k"]) simp
  qed
qed

lemma pattern_exec_bold_first:
  assumes "pattern_exec s = Some m" and "delimited (js ''**'') (js ''**'') (drop (index m) s) = Some t"
  shows "m2 m = Some t \<and> m5 m = None \<and>
         annotated_segment m =
           [\<lparr>content = t, annotations =
              Some \<lparr>bold = Some True, italic = None, strikethrough = None, code = None\<rparr>\<rparr>]"
proof -
  from exec_from_position[OF assms(1)[unfolded pattern_exec_def]] obtain k where
    k: "index m = k" "match_here (drop k s) = Some (m\<lparr>index := 0\<rparr>)" by auto
  from match_here_bold[OF assms(2)] k
  have "m\<lparr>index := 0\<rparr> = \<lparr>index = 0, m0 = js ''**'' @ t @ js ''**'', m2 = Some t, m3 = None,
                         m4 = None, m5 = None, m6 = None\<rparr>" by simp
  then have "m2 (m\<lparr>index := 0\<rparr>) = Some t" "m5 (m\<lparr>index := 0\<rparr>) = None" by simp_all
  then have "m2 m = Some t" "m5 m = None" by simp_all
  then show ?thesis by (simp add: annotated_segment_def)
qed

lemma parseInline_loop_bold:
  assumes "t \<noteq> []" and "list_all (\<lambda>c. c \<noteq> 0x2A \<and> \<not> is_line_terminator c) t"
  shows "parseInline_loop (js ''**'' @ t @ js ''**'') =
           [\<lparr>content = t, annotations =
              Some \<lparr>bold = Some True, italic = None, strikethrough = None, code = None\<rparr>\<rparr>]"
proof -
  let ?s = "js ''**'' @ t @ js ''**''"
  let ?m = "\<lparr>index = 0, m0 = ?s, m2 = Some t, m3 = None, m4 = None, m5 = None, m6 = None\<rparr>"
  from lazy_until_exact[OF assms, of "[]"]
  have "delimited (js ''**'') (js ''**'') ?s = Some t"
    by (simp add: delimited_def js_def)
  from match_here_bold[OF this] have mh: "match_here ?s = Some ?m" .
  have "?s = 0x2A # 0x2A # t @ js ''**''" by (simp add: js_def)
  then have "pattern_exec ?s = Some ?m" using mh by (simp add: pattern_exec_def)
  then show ?thesis
    by (subst parseInline_loop.simps)
       (simp add: annotated_segment_def parseInline_loop_Nil js_def)
qed

text \<open>The match that \<open>exec\<close> finds in \<open>Body **bold** text\<close>.\<close>

definition sample_bold_match :: InlineMatch where
  "sample_bold_match =
     \<lparr>index = 5, m0 = js ''**bold**'', m2 = Some (js ''bold''), m3 = None, m4 = None,
      m5 = None, m6 = None\<rparr>"

section \<open>Claims about precedence in the inline tokenizer\<close>

text \<open>
  C7. The bold alternative comes first at every start position: whenever the match that
  \<open>exec\<close> returns starts where \<open>**(.+?)**\<close> matches, it is that bold match (group 2
  is defined, the italic group 5 is not) and the segment pushed is bold. So
  \<open>**u**\<close>, for a nonempty \<open>u\<close> with no \<open>*\<close> and no line terminator, is tokenized as
  the one bold segment \<open>u\<close> (split at 2000 code units), and \<open>**bold**\<close> as the single
  bold segment \<open>bold\<close>. The document of a heading line \<open># Title\<close>, a blank line and
  \<open>Body **bold** text\<close> gives exactly two blocks: a \<open>heading_1\<close> with the plain segment
  \<open>Title\<close>, then a paragraph with \<open>Body \<close> (plain), \<open>bold\<close> (bold) and \<open> text\<close> (plain).
\<close>

theorem bold_before_italic:
  "(pattern_exec s = Some m \<and>
    delimited (js ''**'') (js ''**'') (drop (index m) s) = Some t \<longrightarrow>
      m2 m = Some t \<and> m5 m = None \<and>
      annotated_segment m =
        [\<lparr>content = t, annotations =
           Some \<lparr>bold = Some True, italic = None, strikethrough = None, code = None\<rparr>\<rparr>]) \<and>
   (u \<noteq> [] \<and> list_all (\<lambda>c. c \<noteq> of_char (CHR ''*'') \<and> \<not> is_line_terminator c) u \<longrightarrow>
      parseInlineAnnotations (js ''**'' @ u @ js ''**'') =
        splitSegment
          \<lparr>content = u, annotations =
             Some \<lparr>bold = Some True, italic = None, strikethrough = None, code = None\<rparr>\<rparr>) \<and>
   parseInlineAnnotations (js ''**bold**'') =
     [\<lparr>content = js ''bold'', annotations =
        Some \<lparr>bold = Some True, italic = None, strikethrough = None, code = None\<rparr>\<rparr>] \<and>
   markdownToBlocks (js ''# Title\<newline>\<newline>Body **bold** text'') =
     [richTextBlock (js ''heading_1'') [\<lparr>content = js ''Title'', annotations = None\<rparr>] None,
      richTextBlock (js ''paragraph'')
        [\<lparr>content = js ''Body '', annotations = None\<rparr>,
         \<lparr>content = js ''bold'', annotations =
            Some \<lparr>bold = Some True, italic = None, strikethrough = None, code = None\<rparr>\<rparr>,
         \<lparr>content = js '' text'', annotations = None\<rparr>] None]"
proof -
  have 1: "pattern_exec s = Some m \<and>
    delimited (js ''**'') (js ''**'') (drop (index m) s) = Some t \<longrightarrow>
      m2 m = Some t \<and> m5 m = None \<and>
      annotated_segment m =
        [\<lparr>content = t, annotations =
           Some \<lparr>bold = Some True, italic = None, strikethrough = None, code = None\<rparr>\<rparr>]"
    using pattern_exec_bold_first by blast
  have 2: "u \<noteq> [] \<and> list_all (\<lambda>c. c \<noteq> of_char (CHR ''*'') \<and> \<not> is_line_terminator c) u \<longrightarrow>
      parseInlineAnnotations (js ''**'' @ u @ js ''**'') =
        splitSegment
          \<lparr>content = u, annotations =
             Some \<lparr>bold = Some True, italic = None, strikethrough = None, code = None\<rparr>\<rparr>"
  proof
    assume a: "u \<noteq> [] \<and> list_all (\<lambda>c. c \<noteq> of_char (CHR ''*'') \<and> \<not> is_line_terminator c) u"
    then have "u \<noteq> []" and "list_all (\<lambda>c. c \<noteq> 0x2A \<and> \<not> is_line_terminator c) u" by simp_all
    from parseInline_loop_bold[OF this]
    show "parseInlineAnnotations (js ''**'' @ u @ js ''**'') =
        splitSegment
          \<lparr>content = u, annotations =
             Some \<lparr>bold = Some True, italic = None, strikethrough = None, code = None\<rparr>\<rparr>"
      by (simp add: parseInlineAnnotations_def)
  qed
  have 3: "parseInlineAnnotations (js ''**bold**'') =
     [\<lparr>content = js ''bold'', annotations =
        Some \<lparr>bold = Some True, italic = None, strikethrough = None, code = None\<rparr>\<rparr>]"
    by code_simp
  have 4: "markdownToBlocks (js ''# Title\<newline>\<newline>Body **bold** text'') =
     [richTextBlock (js ''heading_1'') [\<lparr>content = js ''Title'', annotations = None\<rparr>] None,
      richTextBlock (js ''paragraph'')
        [\<lparr>content = js ''Body '', annotations = None\<rparr>,
         \<lparr>content = js ''bold'', annotations =
            Some \<lparr>bold = Some True, italic = None, strikethrough = None, code = None\<rparr>\<rparr>,
         \<lparr>content = js '' text'', annotations = None\<rparr>] None]"
    by code_simp
  from 1 2 3 4 show ?thesis by (intro conjI)
qed

theorem bold_before_italic_witness:
  "pattern_exec (js ''Body **bold** text'') = Some sample_bold_match \<and>
   delimited (js ''**'') (js ''**'') (drop (index sample_bold_match) (js ''Body **bold** text''))
     = Some (js ''bold'') \<and>
   m2 sample_bold_match = Some (js ''bold'') \<and> m5 sample_bold_match = None \<and>
   annotated_segment sample_bold_match =
     [\<lparr>content = js ''bold'', annotations =
        Some \<lparr>bold = Some True, italic = None, strikethrough = None, code = None\<rparr>\<rparr>] \<and>
   js ''bold'' \<noteq> [] \<and>
   list_all (\<lambda>c. c \<noteq> of_char (CHR ''*'') \<and> \<not> is_line_terminator c) (js ''bold'') \<and>
   parseInlineAnnotations (js ''**'' @ js ''bold'' @ js ''**'') =
     splitSegment
       \<lparr>content = js ''bold'', annotations =
          Some \<lparr>bold = Some True, italic = None, strikethrough = None, code = None\<rparr>\<rparr>"
proof -
  have h1: "pattern_exec (js ''Body **bold** text'') = Some sample_bold_match \<and>
   delimited (js ''**'') (js ''**'') (drop (index sample_bold_match) (js ''Body **bold** text''))
     = Some (js ''bold'')"
    by code_simp
  have h2: "js ''bold'' \<noteq> [] \<and>
   list_all (\<lambda>c. c \<noteq> of_char (CHR ''*'') \<and> \<not> is_line_terminator c) (js ''bold'')"
    by code_simp
  note a = bold_before_italic[where s = "js ''Body **bold** text''" and m = sample_bold_match
      and t = "js ''bold''" and u = "js ''bold''"]
  note c1 = a[THEN conjunct1, THEN mp, OF h1]
  note c2 = a[THEN conjunct2, THEN conjunct1, THEN mp, OF h2]
  from h1 h2 c1 c2 show ?thesis by (intro conjI) blast+
qed

section \<open>Properties of the fence scan\<close>

lemma collect_fence_unclosed: "js ''```'' \<notin> set ls \<Longrightarrow> collect_fence ls = (ls, [])"
  by (induction ls) auto

lemma collect_fence_keep:
  "l \<noteq> js ''```'' \<Longrightarrow>
   collect_fence (l # ls) = (l # fst (collect_fence ls), snd (collect_fence ls))"
  by (simp add: case_prod_unfold)

section \<open>Claims about fences\<close>

text \<open>
  C8. A fence opener whose region is never closed takes all the lines left up to the
  end of the input and gives a single code block, whose rich text is the plain rich
  text of those lines joined by line feeds. The language is \<open>plain text\<close> when the tag
  after the three backticks is empty, and the tag otherwise. The document of three
  backticks, a line feed and \<open>print(1)\<close> gives exactly one code block with language
  \<open>plain text\<close> and the single segment \<open>print(1)\<close>.
\<close>

theorem unterminated_fence:
  "(fence_match line = Some tag \<and> js ''```'' \<notin> set ls \<longrightarrow>
      markdownToBlocks_loop (line # ls) = [code_block tag ls] \<and>
      type (code_block tag ls) = js ''code'' \<and>
      rich_text (payload (code_block tag ls)) = Some (plainRichText (join_lines ls))) \<and>
   fence_match (js ''```'') = Some [] \<and>
   language (payload (code_block [] ls)) = Some (js ''plain text'') \<and>
   (tag \<noteq> [] \<longrightarrow> language (payload (code_block tag ls)) = Some tag) \<and>
   markdownToBlocks (js ''```\<newline>print(1)'') =
     [makeBlock (js ''code'')
        \<lparr>rich_text = Some [\<lparr>content = js ''print(1)'', annotations = None\<rparr>],
         language = Some (js ''plain text''), checked = None\<rparr>]"
proof -
  have 1: "fence_match line = Some tag \<and> js ''```'' \<notin> set ls \<longrightarrow>
      markdownToBlocks_loop (line # ls) = [code_block tag ls] \<and>
      type (code_block tag ls) = js ''code'' \<and>
      rich_text (payload (code_block tag ls)) = Some (plainRichText (join_lines ls))"
    by (simp add: collect_fence_unclosed code_block_fields)
  have 2: "fence_match (js ''```'') = Some []" by code_simp
  have 3: "language (payload (code_block [] ls)) = Some (js ''plain text'')"
    by (simp add: code_block_fields)
  have 4: "tag \<noteq> [] \<longrightarrow> language (payload (code_block tag ls)) = Some tag"
    by (simp add: code_block_fields)
  have 5: "markdownToBlocks (js ''```\<newline>print(1)'') =
     [makeBlock (js ''code'')
        \<lparr>rich_text = Some [\<lparr>content = js ''print(1)'', annotations = None\<rparr>],
         language = Some (js ''plain text''), checked = None\<rparr>]"
    by code_simp
  from 1 2 3 4 5 show ?thesis by (intro conjI)
qed

theorem unterminated_fence_witness:
  "fence_match (js ''```py'') = Some (js ''py'') \<and>
   js ''```'' \<notin> set [js ''a'', js '''', js ''b''] \<and> js ''py'' \<noteq> [] \<and>
   markdownToBlocks_loop [js ''```py'', js ''a'', js '''', js ''b''] =
     [code_block (js ''py'') [js ''a'', js '''', js ''b'']] \<and>
   type (code_block (js ''py'') [js ''a'', js '''', js ''b'']) = js ''code'' \<and>
   rich_text (payload (code_block (js ''py'') [js ''a'', js '''', js ''b''])) =
     Some (plainRichText (join_lines [js ''a'', js '''', js ''b''])) \<and>
   language (payload (code_block (js ''py'') [js ''a'', js '''', js ''b''])) = Some (js ''py'')"
proof -
  have h: "fence_match (js ''```py'') = Some (js ''py'') \<and>
    js ''```'' \<notin> set [js ''a'', js '''', js ''b'']"
    by code_simp
  have n: "js ''py'' \<noteq> []" by code_simp
  note a = unterminated_fence[where line = "js ''```py''" and tag = "js ''py''"
      and ls = "[js ''a'', js '''', js ''b'']"]
  note c1 = a[THEN conjunct1, THEN mp, OF h]
  note c2 = a[THEN conjunct2, THEN conjunct2, THEN conjunct2, THEN conjunct1, THEN mp, OF n]
  from h n c1 c2 show ?thesis by (intro conjI) blast+
qed

lemma trim_between_spaces:
  assumes "list_all is_space ws1" and "list_all is_space ws2" and "t \<noteq> []"
    and "\<not> is_space (hd t)" and "\<not> is_space (last t)"
  shows "trim (ws1 @ t @ ws2) = t"
proof -
  from assms(3,4) have "dropWhile is_space (t @ ws2) = t @ ws2" by (cases t) auto
  with assms(1) have 1: "dropWhile is_space (ws1 @ t @ ws2) = t @ ws2"
    by (simp add: dropWhile_append2 list_all_iff)
  from assms(3,5) have "rev t \<noteq> []" "\<not> is_space (hd (rev t))" by (simp_all add: hd_rev)
  then have "dropWhile is_space (rev t) = rev t" by (cases "rev t") auto
  moreover from assms(2) have "\<And>x. x \<in> set (rev ws2) \<Longrightarrow> is_space x"
    by (simp add: list_all_iff)
  ultimately have 2: "dropWhile is_space (rev ws2 @ rev t) = rev t"
    by (simp only: dropWhile_append2)
  show ?thesis by (simp add: trim_def 1 2)
qed

lemma fence_match_spaced:
  assumes "list_all is_space ws1" and "list_all is_space ws2" and "ws1 \<noteq> [] \<or> ws2 \<noteq> []"
  shows "fence_match (ws1 @ js ''```'' @ ws2) = None"
proof (cases ws1)
  case Nil
  with assms(3) obtain c cs where ws2: "ws2 = c # cs" by (cases ws2) auto
  with assms(2) have "is_space c" by simp
  then have "\<not> is_word_char c" using not_space_word_char by blast
  with Nil ws2 show ?thesis by (simp add: fence_match_def js_def)
next
  case (Cons c cs)
  with assms(1) have "is_space c" by simp
  then have "c \<noteq> 0x60" by (auto simp: is_space_def)
  with Cons show ?thesis by (simp add: fence_match_def js_def)
qed

lemma line_block_backticks:
  "line_block (js ''```'') =
     Some (richTextBlock (js ''paragraph'')
       [\<lparr>content = js ''`'', annotations =
          Some \<lparr>bold = None, italic = None, strikethrough = None, code = Some True\<rparr>\<rparr>] None)"
  by code_simp

text \<open>The code block of a fence with empty content and no language tag.\<close>

definition empty_code_block :: Block where
  "empty_code_block =
     makeBlock (js ''code'')
       \<lparr>rich_text = Some [\<lparr>content = js '''', annotations = None\<rparr>],
        language = Some (js ''plain text''), checked = None\<rparr>"

lemma join_lines_Nil_iff: "join_lines cl = [] \<longleftrightarrow> cl = [] \<or> cl = [[]]"
  by (induction cl rule: join_lines.induct) auto

lemma plainRichText_empty_segment:
  "(\<exists>seg \<in> set (plainRichText c). content seg = []) \<longleftrightarrow> c = []"
proof
  assume "\<exists>seg \<in> set (plainRichText c). content seg = []"
  then obtain seg where "seg \<in> set (plainRichText c)" "content seg = []" by blast
  with plainRichText_parts[of seg c] show "c = []" by auto
next
  assume "c = []"
  then show "\<exists>seg \<in> set (plainRichText c). content seg = []"
    by (simp add: plainRichText_Nil)
qed

lemma empty_segment_block:
  assumes "b \<in> set (markdownToBlocks s)" and "rich_text (payload b) = Some rt"
    and "seg \<in> set rt" and "content seg = []"
  shows "type b = js ''code'' \<and> rt = [\<lparr>content = [], annotations = None\<rparr>] \<and>
         (\<exists>tag cl. b = code_block tag cl \<and> (cl = [] \<or> cl = [[]]))"
proof -
  from markdownToBlocks_blocks[OF assms(1)]
  consider t where "line_block t = Some b" | tag cl where "b = code_block tag cl" by blast
  then show ?thesis
  proof cases
    case 1
    from line_block_Some[OF 1] assms(2) obtain tx where
      "rich_text (payload b) = Some (parseInlineAnnotations tx)"
      by (auto simp: divider_block_def makeBlock_def)
    with assms(2,3) have "seg \<in> set (parseInlineAnnotations tx)" by simp
    from parseInlineAnnotations_parts[OF this] assms(4) show ?thesis by simp
  next
    case 2
    with assms(2) have rt: "rt = plainRichText (join_lines cl)" by (simp add: code_block_fields)
    with assms(3,4) have "\<exists>seg \<in> set (plainRichText (join_lines cl)). content seg = []" by blast
    then have j: "join_lines cl = []" by (simp only: plainRichText_empty_segment)
    then have "cl = [] \<or> cl = [[]]" by (simp only: join_lines_Nil_iff)
    with 2 rt j show ?thesis by (auto simp: code_block_fields plainRichText_Nil)
  qed
qed

section \<open>Claims about empty code content\<close>

text \<open>
  C10, as the claim states it, fails on the document of an opener, one empty line and a
  closer: the fenced region holds a line, the inner loop collects it, and joining the
  one empty line gives empty content again, so the block carries the empty-content
  segment although its region is not without lines.
\<close>

theorem empty_fence_counterexample:
  "split_lines (trim (js ''```\<newline>\<newline>```'')) = [js ''```'', js '''', js ''```''] \<and>
   fst (collect_fence [js '''', js ''```'']) = [js ''''] \<and>
   fst (collect_fence [js '''', js ''```'']) \<noteq> [] \<and>
   markdownToBlocks (js ''```\<newline>\<newline>```'') = [empty_code_block]"
  by code_simp

text \<open>
  C10, amended. The document of three backticks alone, and the document of an opener
  directly followed by a closer, each give exactly one code block with language
  \<open>plain text\<close> whose rich text is the single segment with empty content and no
  annotations. In the result of any input, a block that carries a segment with empty
  content is a code block whose rich text is that single segment, built from collected
  code lines that are none or exactly one empty line; and a code block carries such a
  segment exactly when its collected code lines are none or exactly one empty line.
\<close>

theorem empty_fence:
  "markdownToBlocks (js ''```'') = [empty_code_block] \<and>
   markdownToBlocks (js ''```\<newline>```'') = [empty_code_block] \<and>
   (b \<in> set (markdownToBlocks s) \<and> rich_text (payload b) = Some rt \<and> seg \<in> set rt \<and>
    content seg = [] \<longrightarrow>
      type b = js ''code'' \<and> rt = [\<lparr>content = [], annotations = None\<rparr>] \<and>
      (\<exists>tag codeLines. b = code_block tag codeLines \<and> (codeLines = [] \<or> codeLines = [[]]))) \<and>
   ((\<exists>seg' \<in> set (plainRichText (join_lines codeLines)). content seg' = []) \<longleftrightarrow>
      codeLines = [] \<or> codeLines = [[]])"
proof -
  have 1: "markdownToBlocks (js ''```'') = [empty_code_block]" by code_simp
  have 2: "markdownToBlocks (js ''```\<newline>```'') = [empty_code_block]" by code_simp
  have 3: "b \<in> set (markdownToBlocks s) \<and> rich_text (payload b) = Some rt \<and> seg \<in> set rt \<and>
    content seg = [] \<longrightarrow>
      type b = js ''code'' \<and> rt = [\<lparr>content = [], annotations = None\<rparr>] \<and>
      (\<exists>tag codeLines. b = code_block tag codeLines \<and> (codeLines = [] \<or> codeLines = [[]]))"
    using empty_segment_block by blast
  have 4: "(\<exists>seg' \<in> set (plainRichText (join_lines codeLines)). content seg' = []) \<longleftrightarrow>
      codeLines = [] \<or> codeLines = [[]]"
    by (simp only: plainRichText_empty_segment join_lines_Nil_iff)
  from 1 2 3 4 show ?thesis by (intro conjI)
qed

theorem empty_fence_witness:
  "empty_code_block \<in> set (markdownToBlocks (js ''```'')) \<and>
   rich_text (payload empty_code_block) = Some [\<lparr>content = js '''', annotations = None\<rparr>] \<and>
   \<lparr>content = js '''', annotations = None\<rparr> \<in> set [\<lparr>content = js '''', annotations = None\<rparr>] \<and>
   content \<lparr>content = js '''', annotations = None\<rparr> = [] \<and>
   type empty_code_block = js ''code''"
proof -
  note a = empty_fence[where s = "js ''```''" and b = empty_code_block
      and rt = "[\<lparr>content = js '''', annotations = None\<rparr>]"
      and seg = "\<lparr>content = js '''', annotations = None\<rparr>"]
  from a have m: "empty_code_block \<in> set (markdownToBlocks (js ''```''))" by simp
  have r: "rich_text (payload empty_code_block) = Some [\<lparr>content = js '''', annotations = None\<rparr>]"
    by (simp add: empty_code_block_def makeBlock_def)
  have s: "\<lparr>content = js '''', annotations = None\<rparr> \<in> set [\<lparr>content = js '''', annotations = None\<rparr>]"
    by simp
  have c: "content \<lparr>content = js '''', annotations = None\<rparr> = []" by (simp add: js_def)
  from m r s c have h: "empty_code_block \<in> set (markdownToBlocks (js ''```'')) \<and>
    rich_text (payload empty_code_block) = Some [\<lparr>content = js '''', annotations = None\<rparr>] \<and>
    \<lparr>content = js '''', annotations = None\<rparr> \<in> set [\<lparr>content = js '''', annotations = None\<rparr>] \<and>
    content \<lparr>content = js '''', annotations = None\<rparr> = []" by (intro conjI)
  from a[THEN conjunct2, THEN conjunct2, THEN conjunct1, THEN mp, OF h]
  have t: "type empty_code_block = js ''code''" by blast
  from m r s c t show ?thesis by (intro conjI)
qed

section \<open>Claims about fence markers with white space\<close>

text \<open>
  The lines that the outer loop reads are those of the trimmed input: \<open>content.trim()\<close>
  has removed the white space before the first line and after the last line.
  \<open>reaches ls r\<close> says that the outer loop, started on the lines \<open>ls\<close>, comes to the top
  of an iteration with exactly the lines \<open>r\<close> left to read.
\<close>

inductive reaches :: "jsstring list \<Rightarrow> jsstring list \<Rightarrow> bool" where
  here: "reaches ls ls"
| line: "fence_match l = None \<Longrightarrow> reaches rest r \<Longrightarrow> reaches (l # rest) r"
| fence: "fence_match l = Some tag \<Longrightarrow> reaches (snd (collect_fence rest)) r \<Longrightarrow>
          reaches (l # rest) r"

lemma reaches_blocks:
  "reaches ls r \<Longrightarrow> \<exists>before. markdownToBlocks_loop ls = before @ markdownToBlocks_loop r"
proof (induction rule: reaches.induct)
  case (here ls)
  show ?case by (intro exI[of _ "[]"]) simp
next
  case (line l rest r)
  then obtain before where b: "markdownToBlocks_loop rest = before @ markdownToBlocks_loop r"
    by blast
  show ?case
  proof (cases "line_block (trim l)")
    case None
    with line.hyps(1) b show ?thesis by (intro exI[of _ before]) simp
  next
    case (Some blk)
    with line.hyps(1) b show ?thesis by (intro exI[of _ "blk # before"]) simp
  qed
next
  case (fence l tag rest r)
  then obtain before where
    "markdownToBlocks_loop (snd (collect_fence rest)) = before @ markdownToBlocks_loop r"
    by blast
  with fence.hyps(1) show ?case
    by (intro exI[of _ "code_block tag (fst (collect_fence rest)) # before"]) simp
qed

lemma reaches_Nil: "reaches [] r \<Longrightarrow> r = []"
  by (erule reaches.cases) simp_all

lemma reaches_blank: "reaches [[]] r \<Longrightarrow> r = [[]] \<or> r = []"
proof (erule reaches.cases)
  fix ls assume "[[]] = ls" "r = ls"
  then show ?thesis by simp
next
  fix l rest r' assume "[[]] = l # rest" "r = r'" "reaches rest r'"
  then show ?thesis using reaches_Nil by auto
next
  fix l tag rest r'
  assume "[[]] = l # rest" "r = r'" "reaches (snd (collect_fence rest)) r'"
  then show ?thesis using reaches_Nil by auto
qed

lemma markdownToBlocks_reaches:
  assumes "reaches (split_lines (trim s)) r" and "r \<noteq> []" and "r \<noteq> [[]]"
  shows "\<exists>before. markdownToBlocks s = before @ markdownToBlocks_loop r"
proof (cases "trim s = []")
  case True
  with assms(1) have "reaches [[]] r" by simp
  from reaches_blank[OF this] assms(2,3) show ?thesis by simp
next
  case False
  then have "markdownToBlocks s = markdownToBlocks_loop (split_lines (trim s))"
    by (simp add: markdownToBlocks_def)
  with reaches_blocks[OF assms(1)] show ?thesis by simp
qed

lemma collect_fence_append:
  "js ''```'' \<notin> set body \<Longrightarrow>
   collect_fence (body @ rest) = (body @ fst (collect_fence rest), snd (collect_fence rest))"
  by (induction body) (auto simp: case_prod_unfold)

text \<open>The paragraph that the trimmed line of three backticks becomes.\<close>

definition backtick_paragraph :: Block where
  "backtick_paragraph =
     richTextBlock (js ''paragraph'')
       [\<lparr>content = js ''`'', annotations =
          Some \<lparr>bold = None, italic = None, strikethrough = None, code = Some True\<rparr>\<rparr>] None"

lemma spaced_fence_line:
  assumes "list_all is_space ws1" and "list_all is_space ws2" and "ws1 \<noteq> [] \<or> ws2 \<noteq> []"
  shows "fence_match (ws1 @ js ''```'' @ ws2) = None"
    and "trim (ws1 @ js ''```'' @ ws2) = js ''```''"
    and "markdownToBlocks_loop ((ws1 @ js ''```'' @ ws2) # ls) =
           backtick_paragraph # markdownToBlocks_loop ls"
    and "collect_fence ((ws1 @ js ''```'' @ ws2) # ls) =
           ((ws1 @ js ''```'' @ ws2) # fst (collect_fence ls), snd (collect_fence ls))"
    and "ws1 @ js ''```'' @ ws2 \<noteq> js ''```''"
proof -
  let ?line = "ws1 @ js ''```'' @ ws2"
  show f: "fence_match ?line = None" using assms by (rule fence_match_spaced)
  have "js ''```'' \<noteq> []" "\<not> is_space (hd (js ''```''))" "\<not> is_space (last (js ''```''))"
    by (simp_all add: js_def is_space_def)
  with assms(1,2) show t: "trim ?line = js ''```''" by (intro trim_between_spaces)
  from line_block_backticks t have "line_block (trim ?line) = Some backtick_paragraph"
    by (simp add: backtick_paragraph_def)
  from loop_line[OF f this]
  show "markdownToBlocks_loop (?line # ls) = backtick_paragraph # markdownToBlocks_loop ls" .
  from assms(3) have "length ?line \<noteq> length (js ''```'')" by auto
  then show n: "?line \<noteq> js ''```''" by metis
  then show "collect_fence (?line # ls) = (?line # fst (collect_fence ls), snd (collect_fence ls))"
    by (rule collect_fence_keep)
qed

text \<open>
  C9, as the claim states it, fails at the two ends of the input. The input of two
  spaces and three backticks is a line of white space followed by three backticks, yet
  \<open>markdownToBlocks\<close> opens a fence on it (the outer trim removes the spaces first) and
  returns the empty code block. In the input of an opener, a line \<open>x\<close> and three
  backticks followed by a space, the last line is a fence marker with surrounding white
  space, yet it closes the fence: the code content is \<open>x\<close> alone.
\<close>

theorem fence_patterns_on_input_line_counterexample:
  "markdownToBlocks (js ''  ```'') =
     [makeBlock (js ''code'')
        \<lparr>rich_text = Some [\<lparr>content = js '''', annotations = None\<rparr>],
         language = Some (js ''plain text''), checked = None\<rparr>] \<and>
   markdownToBlocks (js ''```\<newline>x\<newline>``` '') =
     [makeBlock (js ''code'')
        \<lparr>rich_text = Some [\<lparr>content = js ''x'', annotations = None\<rparr>],
         language = Some (js ''plain text''), checked = None\<rparr>]"
  by code_simp

text \<open>
  C9, amended. The fence opener and the fence closer are matched against the line as the
  scan holds it (\<open>lines[i]\<close>, a line of the trimmed input split at line ends), while the
  other classifiers see that line trimmed. For every input and every line of it that is
  three backticks with white space before or after them (at least one white-space code
  unit in all, left after the outer trim): when the outer loop reaches the line, the
  opener pattern does not match it, its trimmed form is the three backticks, and the
  result holds at that place a paragraph (whose rich text is the code-annotated segment
  of one backtick) followed by the blocks of the lines after it; when the line stands
  inside a fence that the outer loop reaches, it does not close the fence and is
  collected with the code lines. The same holds of the two loops on any list of lines,
  and the three documents show it on whole inputs: an indented fence marker outside a
  fence, one inside a fence, and an indented heading, which is still a heading.
\<close>

theorem fence_patterns_on_scanned_line:
  "(list_all is_space ws1 \<and> list_all is_space ws2 \<and> (ws1 \<noteq> [] \<or> ws2 \<noteq> []) \<and>
    reaches (split_lines (trim s)) ((ws1 @ js ''```'' @ ws2) # ls) \<longrightarrow>
      fence_match (ws1 @ js ''```'' @ ws2) = None \<and>
      trim (ws1 @ js ''```'' @ ws2) = js ''```'' \<and>
      (\<exists>before. markdownToBlocks s = before @ backtick_paragraph # markdownToBlocks_loop ls)) \<and>
   (list_all is_space ws1 \<and> list_all is_space ws2 \<and> (ws1 \<noteq> [] \<or> ws2 \<noteq> []) \<and>
    reaches (split_lines (trim s)) (opener # body @ (ws1 @ js ''```'' @ ws2) # ls) \<and>
    fence_match opener = Some tag \<and> js ''```'' \<notin> set body \<longrightarrow>
      (\<exists>before. markdownToBlocks s =
         before @ code_block tag (body @ (ws1 @ js ''```'' @ ws2) # fst (collect_fence ls))
                # markdownToBlocks_loop (snd (collect_fence ls)))) \<and>
   (list_all is_space ws1 \<and> list_all is_space ws2 \<and> (ws1 \<noteq> [] \<or> ws2 \<noteq> []) \<longrightarrow>
      markdownToBlocks_loop ((ws1 @ js ''```'' @ ws2) # ls) =
        backtick_paragraph # markdownToBlocks_loop ls \<and>
      collect_fence ((ws1 @ js ''```'' @ ws2) # ls) =
        ((ws1 @ js ''```'' @ ws2) # fst (collect_fence ls), snd (collect_fence ls))) \<and>
   markdownToBlocks (js ''a\<newline> ```\<newline>b'') =
     [richTextBlock (js ''paragraph'') [\<lparr>content = js ''a'', annotations = None\<rparr>] None,
      backtick_paragraph,
      richTextBlock (js ''paragraph'') [\<lparr>content = js ''b'', annotations = None\<rparr>] None] \<and>
   markdownToBlocks (js ''```\<newline>x\<newline> ```\<newline>y'') =
     [makeBlock (js ''code'')
        \<lparr>rich_text = Some [\<lparr>content = js ''x\<newline> ```\<newline>y'', annotations = None\<rparr>],
         language = Some (js ''plain text''), checked = None\<rparr>] \<and>
   markdownToBlocks (js ''a\<newline>  # T'') =
     [richTextBlock (js ''paragraph'') [\<lparr>content = js ''a'', annotations = None\<rparr>] None,
      richTextBlock (js ''heading_1'') [\<lparr>content = js ''T'', annotations = None\<rparr>] None]"
proof -
  let ?line = "ws1 @ js ''```'' @ ws2"
  have 1: "list_all is_space ws1 \<and> list_all is_space ws2 \<and> (ws1 \<noteq> [] \<or> ws2 \<noteq> []) \<and>
    reaches (split_lines (trim s)) (?line # ls) \<longrightarrow>
      fence_match ?line = None \<and> trim ?line = js ''```'' \<and>
      (\<exists>before. markdownToBlocks s = before @ backtick_paragraph # markdownToBlocks_loop ls)"
  proof
    assume a: "list_all is_space ws1 \<and> list_all is_space ws2 \<and> (ws1 \<noteq> [] \<or> ws2 \<noteq> []) \<and>
      reaches (split_lines (trim s)) (?line # ls)"
    then have w: "list_all is_space ws1" "list_all is_space ws2" "ws1 \<noteq> [] \<or> ws2 \<noteq> []"
      and r: "reaches (split_lines (trim s)) (?line # ls)" by blast+
    have bt: "js ''```'' \<noteq> []" by (simp add: js_def)
    have n1: "?line # ls \<noteq> [[]]" using bt by simp
    have n0: "?line # ls \<noteq> []" by simp
    from markdownToBlocks_reaches[OF r n0 n1] obtain before where
      "markdownToBlocks s = before @ markdownToBlocks_loop (?line # ls)" by blast
    with spaced_fence_line(3)[OF w, of ls]
    have "\<exists>before. markdownToBlocks s = before @ backtick_paragraph # markdownToBlocks_loop ls"
      by auto
    with spaced_fence_line(1,2)[OF w]
    show "fence_match ?line = None \<and> trim ?line = js ''```'' \<and>
      (\<exists>before. markdownToBlocks s = before @ backtick_paragraph # markdownToBlocks_loop ls)"
      by blast
  qed
  have 2: "list_all is_space ws1 \<and> list_all is_space ws2 \<and> (ws1 \<noteq> [] \<or> ws2 \<noteq> []) \<and>
    reaches (split_lines (trim s)) (opener # body @ ?line # ls) \<and>
    fence_match opener = Some tag \<and> js ''```'' \<notin> set body \<longrightarrow>
      (\<exists>before. markdownToBlocks s =
         before @ code_block tag (body @ ?line # fst (collect_fence ls))
                # markdownToBlocks_loop (snd (collect_fence ls)))"
  proof
    assume a: "list_all is_space ws1 \<and> list_all is_space ws2 \<and> (ws1 \<noteq> [] \<or> ws2 \<noteq> []) \<and>
      reaches (split_lines (trim s)) (opener # body @ ?line # ls) \<and>
      fence_match opener = Some tag \<and> js ''```'' \<notin> set body"
    then have w: "list_all is_space ws1" "list_all is_space ws2" "ws1 \<noteq> [] \<or> ws2 \<noteq> []"
      and r: "reaches (split_lines (trim s)) (opener # body @ ?line # ls)"
      and f: "fence_match opener = Some tag" and b: "js ''```'' \<notin> set body" by blast+
    have n1: "opener # body @ ?line # ls \<noteq> [[]]" by simp
    have n0: "opener # body @ ?line # ls \<noteq> []" by simp
    from markdownToBlocks_reaches[OF r n0 n1] obtain before where
      m: "markdownToBlocks s = before @ markdownToBlocks_loop (opener # body @ ?line # ls)"
      by blast
    have "collect_fence (body @ ?line # ls) =
          (body @ fst (collect_fence (?line # ls)), snd (collect_fence (?line # ls)))"
      using b by (rule collect_fence_append)
    also have "\<dots> = (body @ ?line # fst (collect_fence ls), snd (collect_fence ls))"
      by (simp only: spaced_fence_line(4)[OF w] fst_conv snd_conv)
    finally have c: "collect_fence (body @ ?line # ls) =
          (body @ ?line # fst (collect_fence ls), snd (collect_fence ls))" .
    from loop_fence[OF f, of "body @ ?line # ls"]
    have "markdownToBlocks_loop (opener # body @ ?line # ls) =
          code_block tag (body @ ?line # fst (collect_fence ls))
          # markdownToBlocks_loop (snd (collect_fence ls))"
      by (simp only: c fst_conv snd_conv)
    with m show "\<exists>before. markdownToBlocks s =
         before @ code_block tag (body @ ?line # fst (collect_fence ls))
                # markdownToBlocks_loop (snd (collect_fence ls))"
      by auto
  qed
  have 3: "list_all is_space ws1 \<and> list_all is_space ws2 \<and> (ws1 \<noteq> [] \<or> ws2 \<noteq> []) \<longrightarrow>
      markdownToBlocks_loop (?line # ls) = backtick_paragraph # markdownToBlocks_loop ls \<and>
      collect_fence (?line # ls) = (?line # fst (collect_fence ls), snd (collect_fence ls))"
    using spaced_fence_line(3,4) by blast
  have 4: "markdownToBlocks (js ''a\<newline> ```\<newline>b'') =
     [richTextBlock (js ''paragraph'') [\<lparr>content = js ''a'', annotations = None\<rparr>] None,
      backtick_paragraph,
      richTextBlock (js ''paragraph'') [\<lparr>content = js ''b'', annotations = None\<rparr>] None]"
    by code_simp
  have 5: "markdownToBlocks (js ''```\<newline>x\<newline> ```\<newline>y'') =
     [makeBlock (js ''code'')
        \<lparr>rich_text = Some [\<lparr>content = js ''x\<newline> ```\<newline>y'', annotations = None\<rparr>],
         language = Some (js ''plain text''), checked = None\<rparr>]"
    by code_simp
  have 6: "markdownToBlocks (js ''a\<newline>  # T'') =
     [richTextBlock (js ''paragraph'') [\<lparr>content = js ''a'', annotations = None\<rparr>] None,
      richTextBlock (js ''heading_1'') [\<lparr>content = js ''T'', annotations = None\<rparr>] None]"
    by code_simp
  from 1 2 3 4 5 6 show ?thesis by (intro conjI)
qed

theorem fence_patterns_on_scanned_line_witness:
  "list_all is_space (js '' '') \<and> list_all is_space (js '''') \<and> js '' '' \<noteq> [] \<and>
   reaches (split_lines (trim (js ''a\<newline> ```\<newline>b'')))
     ((js '' '' @ js ''```'' @ js '''') # [js ''b'']) \<and>
   fence_match (js '' '' @ js ''```'' @ js '''') = None \<and>
   trim (js '' '' @ js ''```'' @ js '''') = js ''```'' \<and>
   (\<exists>before. markdownToBlocks (js ''a\<newline> ```\<newline>b'') =
      before @ backtick_paragraph # markdownToBlocks_loop [js ''b'']) \<and>
   reaches (split_lines (trim (js ''```\<newline>x\<newline> ```\<newline>y'')))
     (js ''```'' # [js ''x''] @ (js '' '' @ js ''```'' @ js '''') # [js ''y'']) \<and>
   fence_match (js ''```'') = Some [] \<and> js ''```'' \<notin> set [js ''x''] \<and>
   (\<exists>before. markdownToBlocks (js ''```\<newline>x\<newline> ```\<newline>y'') =
      before @ code_block [] ([js ''x''] @ (js '' '' @ js ''```'' @ js '''') # fst (collect_fence [js ''y'']))
             # markdownToBlocks_loop (snd (collect_fence [js ''y''])))"
proof -
  have w: "list_all is_space (js '' '')" "list_all is_space (js '''')" "js '' '' \<noteq> []"
    by code_simp+
  have s1: "split_lines (trim (js ''a\<newline> ```\<newline>b'')) =
            js ''a'' # (js '' '' @ js ''```'' @ js '''') # [js ''b'']"
    by code_simp
  have fa: "fence_match (js ''a'') = None" by code_simp
  have r1: "reaches (split_lines (trim (js ''a\<newline> ```\<newline>b'')))
     ((js '' '' @ js ''```'' @ js '''') # [js ''b''])"
    unfolding s1 by (rule reaches.line[OF fa reaches.here])
  from w r1 have h1: "list_all is_space (js '' '') \<and> list_all is_space (js '''') \<and>
    (js '' '' \<noteq> [] \<or> js '''' \<noteq> []) \<and>
    reaches (split_lines (trim (js ''a\<newline> ```\<newline>b'')))
      ((js '' '' @ js ''```'' @ js '''') # [js ''b''])"
    by blast
  note a = fence_patterns_on_scanned_line[where ?ws1.0 = "js '' ''" and ?ws2.0 = "js ''''"
      and s = "js ''a\<newline> ```\<newline>b''" and ls = "[js ''b'']"]
  note c1 = a[THEN conjunct1, THEN mp, OF h1]
  have s2: "split_lines (trim (js ''```\<newline>x\<newline> ```\<newline>y'')) =
            js ''```'' # [js ''x''] @ (js '' '' @ js ''```'' @ js '''') # [js ''y'']"
    by code_simp
  have r2: "reaches (split_lines (trim (js ''```\<newline>x\<newline> ```\<newline>y'')))
     (js ''```'' # [js ''x''] @ (js '' '' @ js ''```'' @ js '''') # [js ''y''])"
    unfolding s2 by (rule reaches.here)
  have f2: "fence_match (js ''```'') = Some []" by code_simp
  have b2: "js ''```'' \<notin> set [js ''x'']" by code_simp
  from w r2 f2 b2 have h2: "list_all is_space (js '' '') \<and> list_all is_space (js '''') \<and>
    (js '' '' \<noteq> [] \<or> js '''' \<noteq> []) \<and>
    reaches (split_lines (trim (js ''```\<newline>x\<newline> ```\<newline>y'')))
      (js ''```'' # [js ''x''] @ (js '' '' @ js ''```'' @ js '''') # [js ''y'']) \<and>
    fence_match (js ''```'') = Some [] \<and> js ''```'' \<notin> set [js ''x'']"
    by blast
  note b = fence_patterns_on_scanned_line[where ?ws1.0 = "js '' ''" and ?ws2.0 = "js ''''"
      and s = "js ''```\<newline>x\<newline> ```\<newline>y''" and ls = "[js ''y'']"
      and opener = "js ''```''" and body = "[js ''x'']" and tag = "[]"]
  note c2 = b[THEN conjunct2, THEN conjunct1, THEN mp, OF h2]
  from w r1 c1 r2 f2 b2 c2 show ?thesis by (intro conjI) blast+
qed

section \<open>The spread call and the argument limit\<close>

text \<open>
  \<open>parseInlineAnnotations\<close> ends with
  \<^verbatim>\<open>for (const seg of segments) result.push(...splitSegment(seg))\<close>:
  every part of a segment is one argument of the call of \<open>push\<close>. An engine accepts only
  so many arguments in a call and throws a \<open>RangeError\<close> beyond that. The limit is the
  engine's and not the program's, so it is the parameter \<open>max_args\<close> of the functions
  below, which give the outcome of a call: the error, or the value that the functions
  above compute. \<open>plainRichText\<close> returns the array of \<open>splitSegment\<close> as it is and has
  no such call, so a fence has no failure of its own.
\<close>

datatype error = RangeError

fun push_all :: "nat \<Rightarrow> RichTextSegment list \<Rightarrow> RichTextSegment list \<Rightarrow> error + RichTextSegment list" where
  "push_all max_args result [] = Inr result"
| "push_all max_args result (seg # segs) =
     (if max_args < length (splitSegment seg) then Inl RangeError
      else push_all max_args (result @ splitSegment seg) segs)"

definition parseInlineAnnotations_run :: "nat \<Rightarrow> jsstring \<Rightarrow> error + RichTextSegment list" where
  "parseInlineAnnotations_run max_args text = push_all max_args [] (parseInline_loop text)"

definition line_block_run :: "nat \<Rightarrow> jsstring \<Rightarrow> error + Block option" where
  "line_block_run max_args trimmedLine =
     (if trimmedLine = [] then Inr None
      else if trimmedLine = js ''---'' then
        Inr (Some (makeBlock (js ''divider'') \<lparr>rich_text = None, language = None, checked = None\<rparr>))
      else
     (case heading_match trimmedLine of
        Some (hashes, text) \<Rightarrow>
          (let level = min (length hashes) 3;
               headingType = js ''heading_'' @ number_to_string level
           in case parseInlineAnnotations_run max_args text of
                Inl e \<Rightarrow> Inl e
              | Inr richText \<Rightarrow> Inr (Some (richTextBlock headingType richText None)))
      | None \<Rightarrow>
     (case todo_match trimmedLine of
        Some (mark, text) \<Rightarrow>
          (let checked' = (mark \<noteq> of_char (CHR '' ''))
           in case parseInlineAnnotations_run max_args text of
                Inl e \<Rightarrow> Inl e
              | Inr richText \<Rightarrow>
                  Inr (Some (richTextBlock (js ''to_do'') richText
                    (Some \<lparr>rich_text = None, language = None, checked = Some checked'\<rparr>))))
      | None \<Rightarrow>
     (case bullet_match trimmedLine of
        Some text \<Rightarrow>
          (case parseInlineAnnotations_run max_args text of
             Inl e \<Rightarrow> Inl e
           | Inr richText \<Rightarrow> Inr (Some (richTextBlock (js ''bulleted_list_item'') richText None)))
      | None \<Rightarrow>
     (case numbered_match trimmedLine of
        Some text \<Rightarrow>
          (case parseInlineAnnotations_run max_args text of
             Inl e \<Rightarrow> Inl e
           | Inr richText \<Rightarrow> Inr (Some (richTextBlock (js ''numbered_list_item'') richText None)))
      | None \<Rightarrow>
     (case quote_match trimmedLine of
        Some text \<Rightarrow>
          (case parseInlineAnnotations_run max_args text of
             Inl e \<Rightarrow> Inl e
           | Inr richText \<Rightarrow> Inr (Some (richTextBlock (js ''quote'') richText None)))
      | None \<Rightarrow>
          (case parseInlineAnnotations_run max_args trimmedLine of
             Inl e \<Rightarrow> Inl e
           | Inr richText \<Rightarrow> Inr (Some (richTextBlock (js ''paragraph'') richText None)))))))))"

function markdownToBlocks_loop_run :: "nat \<Rightarrow> jsstring list \<Rightarrow> error + Block list" where
  "markdownToBlocks_loop_run max_args [] = Inr []"
| "markdownToBlocks_loop_run max_args (line # rest) =
     (case fence_match line of
        Some tag \<Rightarrow>
          (case markdownToBlocks_loop_run max_args (snd (collect_fence rest)) of
             Inl e \<Rightarrow> Inl e
           | Inr blocks \<Rightarrow> Inr (code_block tag (fst (collect_fence rest)) # blocks))
      | None \<Rightarrow>
          (case line_block_run max_args (trim line) of
             Inl e \<Rightarrow> Inl e
           | Inr None \<Rightarrow> markdownToBlocks_loop_run max_args rest
           | Inr (Some b) \<Rightarrow>
               (case markdownToBlocks_loop_run max_args rest of
                  Inl e \<Rightarrow> Inl e
                | Inr blocks \<Rightarrow> Inr (b # blocks))))"
  by pat_completeness auto
termination
  by (relation "measure (\<lambda>(max_args, ls). length ls)")
     (auto simp: collect_fence_rest_length less_Suc_eq_le)

definition markdownToBlocks_run :: "nat \<Rightarrow> jsstring \<Rightarrow> error + Block list" where
  "markdownToBlocks_run max_args content' =
     (let trimmed = trim content' in
      if trimmed = [] then Inr [] else markdownToBlocks_loop_run max_args (split_lines trimmed))"

lemma push_all_Inr:
  "push_all k r segs = Inr out \<Longrightarrow> out = r @ concat (map splitSegment segs)"
proof (induction segs arbitrary: r)
  case Nil
  then show ?case by simp
next
  case (Cons seg segs)
  then have "push_all k (r @ splitSegment seg) segs = Inr out" by (simp split: if_splits)
  from Cons.IH[OF this] show ?case by simp
qed

lemma push_all_ok:
  "list_all (\<lambda>seg. length (splitSegment seg) \<le> k) segs \<Longrightarrow>
   push_all k r segs = Inr (r @ concat (map splitSegment segs))"
  by (induction segs arbitrary: r) auto

lemma parseInlineAnnotations_run_Inr:
  "parseInlineAnnotations_run k t = Inr rt \<Longrightarrow> rt = parseInlineAnnotations t"
  by (auto simp: parseInlineAnnotations_run_def parseInlineAnnotations_def dest: push_all_Inr)

lemma line_block_run_Inr: "line_block_run k t = Inr ob \<Longrightarrow> ob = line_block t"
  by (auto simp: line_block_run_def line_block_def Let_def
      split: if_splits option.splits prod.splits sum.splits
      dest: parseInlineAnnotations_run_Inr)

lemma loop_run_Inr:
  "markdownToBlocks_loop_run k ls = Inr bs \<Longrightarrow> bs = markdownToBlocks_loop ls"
proof (induction k ls arbitrary: bs rule: markdownToBlocks_loop_run.induct)
  case (1 k)
  then show ?case by simp
next
  case (2 k line rest)
  show ?case
  proof (cases "fence_match line")
    case (Some tag)
    with "2.prems" obtain bs' where
      r: "markdownToBlocks_loop_run k (snd (collect_fence rest)) = Inr bs'"
      and b: "bs = code_block tag (fst (collect_fence rest)) # bs'"
      by (auto split: sum.splits)
    from "2.IH"(3)[OF Some r] b Some show ?thesis by simp
  next
    case None
    show ?thesis
    proof (cases "line_block_run k (trim line)")
      case (Inl e)
      with None "2.prems" show ?thesis by simp
    next
      case (Inr ob)
      note lb = line_block_run_Inr[OF Inr]
      show ?thesis
      proof (cases ob)
        case nb: None
        with None Inr "2.prems" have r: "markdownToBlocks_loop_run k rest = Inr bs" by simp
        from lb nb have lb': "line_block (trim line) = None" by simp
        from "2.IH"(1)[OF None Inr nb r] None lb' show ?thesis by simp
      next
        case (Some b)
        with None Inr "2.prems" obtain bs' where
          r: "markdownToBlocks_loop_run k rest = Inr bs'" and e: "bs = b # bs'"
          by (auto split: sum.splits)
        from lb Some have lb': "line_block (trim line) = Some b" by simp
        from "2.IH"(2)[OF None Inr Some r] e loop_line[OF None lb', of rest] show ?thesis
          by (simp only:)
      qed
    qed
  qed
qed

lemma markdownToBlocks_run_Inr:
  "markdownToBlocks_run k s = Inr bs \<Longrightarrow> bs = markdownToBlocks s"
  by (auto simp: markdownToBlocks_run_def markdownToBlocks_def Let_def
      split: if_splits dest: loop_run_Inr)

lemma match_here_plain:
  assumes "s = [] \<or> hd s \<notin> {0x2A, 0x7E, 0x60, 0x5F}"
  shows "match_here s = None"
proof -
  from assms have "\<not> prefix (js ''**'') s" "\<not> prefix (js ''~~'') s" "\<not> prefix (js ''`'') s"
    "\<not> prefix (js ''*'') s" "\<not> prefix (js ''_'') s"
    by (cases s; auto simp: js_def)+
  then show ?thesis by (simp add: match_here_def delimited_def)
qed

lemma exec_from_plain:
  "list_all (\<lambda>c. c \<notin> {0x2A, 0x7E, 0x60, 0x5F}) s \<Longrightarrow> exec_from i s = None"
proof (induction s arbitrary: i)
  case Nil
  then show ?case by (simp add: match_here_plain)
next
  case (Cons c cs)
  then have "match_here (c # cs) = None" by (intro match_here_plain) simp
  with Cons show ?case by simp
qed

lemma parseInline_loop_plain:
  assumes "s \<noteq> []" and "list_all (\<lambda>c. c \<notin> {0x2A, 0x7E, 0x60, 0x5F}) s"
  shows "parseInline_loop s = [\<lparr>content = s, annotations = None\<rparr>]"
proof -
  from exec_from_plain[OF assms(2)] have "pattern_exec s = None" by (simp add: pattern_exec_def)
  with assms(1) show ?thesis by (subst parseInline_loop.simps) simp
qed

lemma splitSegment_length:
  "RICH_TEXT_MAX < length (content seg) \<Longrightarrow>
   length (splitSegment seg) = (length (content seg) + (RICH_TEXT_MAX - 1)) div RICH_TEXT_MAX"
  by (simp add: splitSegment_def splitSegment_loop_length)

lemma parseInlineAnnotations_run_long:
  assumes "list_all (\<lambda>c. c \<notin> {0x2A, 0x7E, 0x60, 0x5F}) s" and "2000 < length s"
    and "k < (length s + 1999) div 2000"
  shows "parseInlineAnnotations_run k s = Inl RangeError"
proof -
  from assms(2) have ne: "s \<noteq> []" by auto
  have "length (splitSegment \<lparr>content = s, annotations = None\<rparr>) = (length s + 1999) div 2000"
    using assms(2) splitSegment_length[of "\<lparr>content = s, annotations = None\<rparr>"]
    by (simp add: RICH_TEXT_MAX_def)
  with assms(3) show ?thesis
    by (simp add: parseInlineAnnotations_run_def parseInline_loop_plain[OF ne assms(1)])
qed

lemma line_patterns_None_letter:
  assumes "s \<noteq> []" and "hd s = 0x61"
  shows "heading_match s = None" and "todo_match s = None" and "bullet_match s = None"
    and "numbered_match s = None" and "quote_match s = None"
proof -
  from assms obtain r where s: "s = 0x61 # r" by (cases s) auto
  show "heading_match s = None" by (simp add: heading_match_def s)
  show "todo_match s = None" by (simp add: todo_match_def s is_bullet_marker_def)
  show "bullet_match s = None" by (simp add: bullet_match_def s is_bullet_marker_def)
  show "numbered_match s = None" by (simp add: numbered_match_def s is_digit_def)
  show "quote_match s = None" by (simp add: quote_match_def s)
qed

lemma markdownToBlocks_run_long_line_aux:
  assumes "2000 < n" and "k < (n + 1999) div 2000"
  shows "markdownToBlocks_run k (replicate n 0x61) = Inl RangeError"
proof -
  let ?s = "replicate n 0x61 :: jsstring"
  from assms(1) have n0: "n \<noteq> 0" by simp
  then have ne: "?s \<noteq> []" and hd: "hd ?s = 0x61" and last: "last ?s = 0x61" by simp_all
  have nsp: "\<not> is_space (0x61 :: code_unit)" by (simp add: is_space_def)
  from ne hd last nsp have tr: "trim ?s = ?s" by (simp add: trim_id)
  have sl: "split_lines ?s = [?s]" by (rule split_lines_single) (simp add: list_all_iff)
  have f: "fence_match ?s = None"
  proof (rule fence_match_None_if_trim)
    show "trim ?s \<noteq> []" using n0 by (simp add: tr)
    show "hd (trim ?s) \<noteq> 0x60" using n0 by (simp add: tr)
  qed
  from hd have nd: "?s \<noteq> js ''---''" by (auto simp: js_def)
  have pl: "list_all (\<lambda>c. c \<notin> {0x2A, 0x7E, 0x60, 0x5F}) ?s" by (simp add: list_all_iff)
  from assms have "parseInlineAnnotations_run k ?s = Inl RangeError"
    by (intro parseInlineAnnotations_run_long[OF pl]) simp_all
  then have lb: "line_block_run k ?s = Inl RangeError"
    using ne nd by (simp add: line_block_run_def line_patterns_None_letter[OF ne hd])
  have "markdownToBlocks_loop_run k [?s] = Inl RangeError"
    by (simp add: f tr lb)
  with ne show ?thesis by (simp add: markdownToBlocks_run_def tr sl)
qed

lemma markdownToBlocks_run_long_line:
  assumes "2000 < n" and "k < (n + 1999) div 2000"
  shows "markdownToBlocks_run k (replicate n (of_char (CHR ''a''))) = Inl RangeError"
proof -
  have a: "(of_char (CHR ''a'') :: code_unit) = 0x61" by simp
  show ?thesis unfolding a using assms by (rule markdownToBlocks_run_long_line_aux)
qed

lemma markdownToBlocks_run_sample:
  "markdownToBlocks_run (Suc 0) sample_divider_heading = Inr (markdownToBlocks sample_divider_heading)"
  by code_simp

lemma markdownToBlocks_run_long_code_aux:
  assumes "0 < n"
  shows "markdownToBlocks_run k (js ''```'' @ 0x0A # replicate n 0x61) =
         Inr [code_block [] [replicate n 0x61]]"
proof -
  let ?a = "replicate n 0x61 :: jsstring"
  let ?s = "js ''```'' @ 0x0A # ?a"
  from assms have n0: "n \<noteq> 0" by simp
  have nsp: "\<not> is_space (0x61 :: code_unit)" "\<not> is_space (0x60 :: code_unit)"
    by (simp_all add: is_space_def)
  have ne: "?s \<noteq> []" by simp
  have "hd ?s = 0x60" "last ?s = 0x61" using n0 by (simp_all add: js_def)
  with ne nsp have tr: "trim ?s = ?s" by (simp add: trim_id)
  have "split_lines ?a = [?a]" by (rule split_lines_single) (simp add: list_all_iff)
  then have sl: "split_lines ?s = [js ''```'', ?a]" by (simp add: js_def)
  have f: "fence_match (js ''```'') = Some []" by code_simp
  have "hd ?a \<noteq> hd (js ''```'')" using n0 by (simp add: js_def)
  then have na: "?a \<noteq> js ''```''" by metis
  then have cf: "collect_fence [?a] = ([?a], [])" by simp
  have "markdownToBlocks_loop_run k (js ''```'' # [?a]) =
        (case markdownToBlocks_loop_run k (snd (collect_fence [?a])) of
           Inl e \<Rightarrow> Inl e
         | Inr blocks \<Rightarrow> Inr (code_block [] (fst (collect_fence [?a])) # blocks))"
    by (simp only: markdownToBlocks_loop_run.simps(2) f option.case)
  then have lp: "markdownToBlocks_loop_run k [js ''```'', ?a] = Inr [code_block [] [?a]]"
    by (simp only: cf fst_conv snd_conv markdownToBlocks_loop_run.simps(1) sum.case)
  have "markdownToBlocks_run k ?s =
        (if trim ?s = [] then Inr [] else markdownToBlocks_loop_run k (split_lines (trim ?s)))"
    by (simp only: markdownToBlocks_run_def Let_def)
  also have "\<dots> = markdownToBlocks_loop_run k [js ''```'', ?a]"
    by (simp only: tr sl if_not_P[OF ne])
  finally show ?thesis by (simp only: lp)
qed

lemma markdownToBlocks_run_long_code:
  assumes "0 < n"
  shows "markdownToBlocks_run k (js ''```\<newline>'' @ replicate n (of_char (CHR ''a''))) =
         Inr [code_block [] [replicate n (of_char (CHR ''a''))]]"
proof -
  have a: "(of_char (CHR ''a'') :: code_unit) = 0x61" by simp
  have b: "js ''```\<newline>'' @ replicate n 0x61 = js ''```'' @ 0x0A # replicate n 0x61"
    by (simp add: js_def)
  show ?thesis unfolding a b using assms by (rule markdownToBlocks_run_long_code_aux)
qed

text \<open>
  C5 says that \<open>markdownToBlocks\<close> never throws. On the input of one line of 260000000
  letters \<open>a\<close> the line is a paragraph of one plain segment, which \<open>splitSegment\<close> cuts
  into 130000 parts, and the spread call passes them all as arguments: on every engine
  whose limit is below 130000 arguments the call throws \<open>RangeError\<close>. (The same
  content inside a fence is returned, by \<open>markdownToBlocks_run_long_code\<close>.)
\<close>

theorem markdownToBlocks_run_throws:
  "markdownToBlocks_run 129999 (replicate 260000000 (of_char (CHR ''a''))) = Inl RangeError"
proof (rule markdownToBlocks_run_long_line)
  show "(2000::nat) < 260000000" by simp
  show "(129999::nat) < (260000000 + 1999) div 2000" by simp
qed

end
